theory Spec2Isabelle
  imports Main "HOL-Library.Char_ord" "HOL-Library.List_Lexorder" "HOL-Library.Sublist"
    "HOL-Library.Multiset" "HOL-Library.Product_Lexorder"
begin

section \<open>Strings and time\<close>

text \<open>
  A Go \<^verbatim>\<open>string\<close> is a sequence of bytes; \<^typ>\<open>string\<close> (a list of 8-bit
  characters) models it byte for byte, so \<^term>\<open>length\<close> is Go's \<^verbatim>\<open>len\<close> and
  \<^term>\<open>take\<close> is the slice \<^verbatim>\<open>text[:n]\<close>.

  A \<^verbatim>\<open>time.Time\<close> is modelled by the instant it denotes, an integer number of
  nanoseconds counted from the zero time (January 1, year 1, 00:00:00 UTC).
  \<^verbatim>\<open>IsZero\<close>, \<^verbatim>\<open>Before\<close>, \<^verbatim>\<open>After\<close> and \<^verbatim>\<open>Equal\<close> all compare instants.
\<close>

type_synonym time = int

definition IsZero :: "time \<Rightarrow> bool" where
  "IsZero t = (t = 0)"

definition Before :: "time \<Rightarrow> time \<Rightarrow> bool" where
  "Before t u = (t < u)"

definition After :: "time \<Rightarrow> time \<Rightarrow> bool" where
  "After t u = (t > u)"

subsection \<open>Unicode white space in UTF-8\<close>

text \<open>
  \<^verbatim>\<open>strings.TrimSpace\<close> and \<^verbatim>\<open>strings.Fields\<close> decode the bytes as UTF-8 and test
  each rune with \<^verbatim>\<open>unicode.IsSpace\<close>. The white space runes are U+0009..U+000D,
  U+0020, U+0085, U+00A0, U+1680, U+2000..U+200A, U+2028, U+2029, U+202F, U+205F and
  U+3000; \<open>spaceRunes\<close> lists their encodings. Every encoding starts with an ASCII
  byte or a UTF-8 lead byte, which is never a continuation byte, so a white space rune
  is found exactly where one of these byte sequences starts.
\<close>

definition spaceRunes :: "string list" where
  "spaceRunes =
    [[CHR 0x09], [CHR 0x0A], [CHR 0x0B], [CHR 0x0C], [CHR 0x0D], [CHR 0x20],
     [CHR 0xC2, CHR 0x85], [CHR 0xC2, CHR 0xA0],
     [CHR 0xE1, CHR 0x9A, CHR 0x80],
     [CHR 0xE2, CHR 0x80, CHR 0x80], [CHR 0xE2, CHR 0x80, CHR 0x81],
     [CHR 0xE2, CHR 0x80, CHR 0x82], [CHR 0xE2, CHR 0x80, CHR 0x83],
     [CHR 0xE2, CHR 0x80, CHR 0x84], [CHR 0xE2, CHR 0x80, CHR 0x85],
     [CHR 0xE2, CHR 0x80, CHR 0x86], [CHR 0xE2, CHR 0x80, CHR 0x87],
     [CHR 0xE2, CHR 0x80, CHR 0x88], [CHR 0xE2, CHR 0x80, CHR 0x89],
     [CHR 0xE2, CHR 0x80, CHR 0x8A],
     [CHR 0xE2, CHR 0x80, CHR 0xA8], [CHR 0xE2, CHR 0x80, CHR 0xA9],
     [CHR 0xE2, CHR 0x80, CHR 0xAF], [CHR 0xE2, CHR 0x81, CHR 0x9F],
     [CHR 0xE3, CHR 0x80, CHR 0x80]]"

text \<open>The number of bytes of the white space rune that starts the string, 0 if none does.\<close>

definition spaceWidth :: "string \<Rightarrow> nat" where
  "spaceWidth s = (case find (\<lambda>p. prefix p s) spaceRunes of None \<Rightarrow> 0 | Some p \<Rightarrow> length p)"

text \<open>
  The string as the decoder sees it: white space runes, and the bytes of everything
  else.
\<close>

datatype tok = Space string | Byte char

fun isSpaceTok :: "tok \<Rightarrow> bool" where
  "isSpaceTok (Space _) = True"
| "isSpaceTok (Byte _) = False"

fun tokBytes :: "tok \<Rightarrow> string" where
  "tokBytes (Space p) = p"
| "tokBytes (Byte c) = [c]"

function tokens :: "string \<Rightarrow> tok list" where
  "tokens [] = []"
| "tokens (c # cs) =
     (if spaceWidth (c # cs) = 0 then Byte c # tokens cs
      else Space (take (spaceWidth (c # cs)) (c # cs)) # tokens (drop (spaceWidth (c # cs)) (c # cs)))"
  by pat_completeness auto
termination
  by (relation "measure length") auto

text \<open>\<^verbatim>\<open>strings.TrimSpace\<close>: all leading and trailing white space runes removed.\<close>

definition TrimSpace :: "string \<Rightarrow> string" where
  "TrimSpace s =
     concat (map tokBytes (rev (dropWhile isSpaceTok (rev (dropWhile isSpaceTok (tokens s))))))"

text \<open>
  \<^verbatim>\<open>strings.Fields\<close>: the maximal runs of non-space bytes. \<open>cur\<close> is the field being
  read.
\<close>

fun fieldsFrom :: "string \<Rightarrow> tok list \<Rightarrow> string list" where
  "fieldsFrom cur [] = (if cur = [] then [] else [cur])"
| "fieldsFrom cur (Space _ # ts) = (if cur = [] then fieldsFrom [] ts else cur # fieldsFrom [] ts)"
| "fieldsFrom cur (Byte c # ts) = fieldsFrom (cur @ [c]) ts"

definition Fields :: "string \<Rightarrow> string list" where
  "Fields s = fieldsFrom [] (tokens s)"

text \<open>\<^verbatim>\<open>strings.Join\<close>.\<close>

fun Join :: "string list \<Rightarrow> string \<Rightarrow> string" where
  "Join [] sep = []"
| "Join [x] sep = x"
| "Join (x # y # ys) sep = x @ sep @ Join (y # ys) sep"

section \<open>Snippets (loader.go)\<close>

definition snippetLimit :: nat where
  "snippetLimit = 160"

definition compactSnippet :: "string \<Rightarrow> string" where
  "compactSnippet text0 =
     (let text1 = TrimSpace text0 in
      if text1 = [] then []
      else
        let text2 = Join (Fields text1) '' '' in
        if length text2 \<le> snippetLimit then text2
        else if snippetLimit \<le> 3 then take snippetLimit text2
        else take (snippetLimit - 3) text2 @ ''...'')"

section \<open>Sessions (the \<^verbatim>\<open>Session\<close> struct)\<close>

record Session =
  ID :: string
  CreatedAt :: time
  UpdatedAt :: time
  WorkingDir :: string
  LastAction :: string
  FilePaths :: "string list"

text \<open>\<^verbatim>\<open>Snapshot\<close> copies the slice of paths; on values the copy is the session itself.\<close>

definition Snapshot :: "Session \<Rightarrow> Session" where
  "Snapshot s = s\<lparr>FilePaths := FilePaths s\<rparr>"

section \<open>Log entries as decoded by the libraries\<close>

text \<open>
  The source hands text to \<^verbatim>\<open>time.Parse\<close> and \<^verbatim>\<open>json.Unmarshal\<close> and looks only at
  what they return. A piece of text is therefore represented by what the library makes of
  it. A timestamp string is empty, or rejected by both layouts, or denotes an instant
  (whatever either of \<^verbatim>\<open>RFC3339Nano\<close> and \<^verbatim>\<open>RFC3339\<close> accepts).
\<close>

datatype timestampText = TsEmpty | TsInvalid | TsTime time

fun parseTimestamp :: "timestampText \<Rightarrow> time option" where
  "parseTimestamp TsEmpty = None"
| "parseTimestamp (TsTime t) = Some t"
| "parseTimestamp TsInvalid = None"

text \<open>
  A string that holds JSON for a given Go struct: the empty string, a string that
  \<^verbatim>\<open>json.Unmarshal\<close> rejects for that struct, or one that decodes to a value.
\<close>

datatype 'a jsonText = JsonEmpty | JsonInvalid | JsonValue 'a

record messageContent =
  mc_Type :: string
  mc_Text :: string

text \<open>The anonymous structs decoded from \<^verbatim>\<open>arguments\<close> and \<^verbatim>\<open>output\<close>.\<close>

record shellCall =
  sc_Command :: "string list"
  sc_Workdir :: string

record funcOutput =
  fo_Output :: string
  fo_ExitCode :: "int option"
  fo_Error :: string

text \<open>
  \<^verbatim>\<open>responseItemPayload\<close>, with the fields that the code reads. \<open>ri_Error\<close> is the
  pointer \<^verbatim>\<open>*responseItemError\<close>: \<open>None\<close> is nil, \<open>Some m\<close> carries the message.
\<close>

record responseItemPayload =
  ri_Type :: string
  ri_Role :: string
  ri_Content :: "messageContent list"
  ri_Name :: string
  ri_Arguments :: "shellCall jsonText"
  ri_Output :: "funcOutput jsonText"
  ri_Summary :: "messageContent list"
  ri_Error :: "string option"
  ri_Title :: string

record eventMsgPayload =
  em_Type :: string
  em_Message :: string
  em_Text :: string

record sessionMetaPayload =
  sm_ID :: string
  sm_Timestamp :: timestampText
  sm_CWD :: string

text \<open>
  A \<^verbatim>\<open>json.RawMessage\<close> is decoded against three shapes; it is represented by the three
  results, \<open>None\<close> where \<^verbatim>\<open>json.Unmarshal\<close> returns an error.
\<close>

record rawMessage =
  asSessionMeta :: "sessionMetaPayload option"
  asResponseItem :: "responseItemPayload option"
  asEventMsg :: "eventMsgPayload option"

record logEntry =
  le_Timestamp :: timestampText
  le_Type :: string
  le_Payload :: rawMessage

section \<open>The event describer (loader.go)\<close>

fun firstNonEmptyText :: "messageContent list \<Rightarrow> string" where
  "firstNonEmptyText [] = []"
| "firstNonEmptyText (item # items) =
     (if TrimSpace (mc_Text item) \<noteq> [] then mc_Text item else firstNonEmptyText items)"

text \<open>\<^verbatim>\<open>%d\<close> of \<^verbatim>\<open>fmt.Sprintf\<close>.\<close>

definition digitChar :: "nat \<Rightarrow> char" where
  "digitChar d = char_of (48 + d)"

function showNat :: "nat \<Rightarrow> string" where
  "showNat n = (if n < 10 then [digitChar n] else showNat (n div 10) @ [digitChar (n mod 10)])"
  by pat_completeness auto
termination
  by (relation "measure id") auto

definition showInt :: "int \<Rightarrow> string" where
  "showInt i = (if i < 0 then CHR ''-'' # showNat (nat (- i)) else showNat (nat i))"

definition describeFunctionArguments :: "string \<Rightarrow> shellCall jsonText \<Rightarrow> string" where
  "describeFunctionArguments name argsJSON =
     (case argsJSON of
        JsonEmpty \<Rightarrow> []
      | JsonInvalid \<Rightarrow> []
      | JsonValue call \<Rightarrow>
          (if name = ''shell'' then
             (if sc_Command call = [] then []
              else compactSnippet (Join (sc_Command call) '' ''))
           else []))"

definition describeFunctionOutput :: "responseItemPayload \<Rightarrow> string" where
  "describeFunctionOutput payload =
     (case ri_Output payload of
        JsonEmpty \<Rightarrow>
          (case ri_Error payload of
             None \<Rightarrow> ''call '' @ ri_Name payload @ '' completed''
           | Some msg \<Rightarrow>
               (if msg \<noteq> [] then ''call '' @ ri_Name payload @ '' error: '' @ compactSnippet msg
                else ''call '' @ ri_Name payload @ '' completed''))
      | JsonInvalid \<Rightarrow> ''call '' @ ri_Name payload @ '' output''
      | JsonValue out \<Rightarrow>
          (if fo_Error out \<noteq> [] then
             ''call '' @ ri_Name payload @ '' error: '' @ compactSnippet (fo_Error out)
           else
             (case fo_ExitCode out of
                Some code \<Rightarrow>
                  (let snippet = compactSnippet (fo_Output out) in
                   if snippet \<noteq> [] then
                     ''call '' @ ri_Name payload @ '' exit '' @ showInt code @ '': '' @ snippet
                   else ''call '' @ ri_Name payload @ '' exit '' @ showInt code)
              | None \<Rightarrow>
                  (if fo_Output out = [] then ''call '' @ ri_Name payload @ '' completed''
                   else ''call '' @ ri_Name payload @ '': '' @ compactSnippet (fo_Output out)))))"

definition describeResponseItem :: "rawMessage \<Rightarrow> string" where
  "describeResponseItem raw =
     (case asResponseItem raw of
        None \<Rightarrow> []
      | Some payload \<Rightarrow>
          (if ri_Type payload = ''message'' then
             (let text0 = firstNonEmptyText (ri_Content payload);
                  text1 = (if text0 = [] then firstNonEmptyText (ri_Summary payload) else text0);
                  text2 = (if text1 = [] \<and> ri_Title payload \<noteq> [] then ri_Title payload else text1)
              in if text2 = [] then []
                 else
                   (let prefix0 = TrimSpace (ri_Role payload) in
                    if prefix0 \<noteq> [] then prefix0 @ '': '' @ compactSnippet text2
                    else compactSnippet text2))
           else if ri_Type payload = ''reasoning'' then
             (let text0 = firstNonEmptyText (ri_Summary payload);
                  text1 = (if text0 = [] then firstNonEmptyText (ri_Content payload) else text0)
              in if text1 = [] then [] else ''reasoning: '' @ compactSnippet text1)
           else if ri_Type payload = ''function_call'' then
             (let desc = ''call '' @ ri_Name payload;
                  args = describeFunctionArguments (ri_Name payload) (ri_Arguments payload)
              in if args \<noteq> [] then desc @ '' '' @ args else desc)
           else if ri_Type payload = ''function_call_output'' then describeFunctionOutput payload
           else (if ri_Title payload \<noteq> [] then compactSnippet (ri_Title payload) else [])))"

definition describeEventMessage :: "rawMessage \<Rightarrow> string" where
  "describeEventMessage raw =
     (case asEventMsg raw of
        None \<Rightarrow> []
      | Some payload \<Rightarrow>
          (let fallback =
                 (if em_Message payload \<noteq> [] then
                    em_Type payload @ '': '' @ compactSnippet (em_Message payload)
                  else em_Type payload)
           in
           if em_Type payload \<in> {''user_message'', ''assistant_message'', ''system_message''} then
             (let text0 = (if em_Message payload = [] then em_Text payload else em_Message payload)
              in if text0 = [] then [] else em_Type payload @ '': '' @ compactSnippet text0)
           else if em_Type payload = ''tool_progress'' then
             (if em_Message payload \<noteq> [] then
                ''tool progress: '' @ compactSnippet (em_Message payload)
              else fallback)
           else if em_Type payload = ''token_count'' then ''token usage updated''
           else if em_Type payload = ''command_output'' then
             (if em_Message payload \<noteq> [] then
                ''command output: '' @ compactSnippet (em_Message payload)
              else fallback)
           else fallback))"

definition describeEntry :: "logEntry \<Rightarrow> string" where
  "describeEntry entry =
     (if le_Type entry = ''response_item'' then describeResponseItem (le_Payload entry)
      else if le_Type entry = ''event_msg'' then describeEventMessage (le_Payload entry)
      else [])"

section \<open>The session parser (loader.go, \<^verbatim>\<open>parseSessionFile\<close>)\<close>

datatype parseError =
  OpenFailed | ReadFailed | LineTooLong | DecodeLogEntry | DecodeSessionMeta | MissingSessionID

text \<open>
  What one call of \<^verbatim>\<open>reader.ReadBytes\<close> delivers before the end of the file: a read
  error, a full buffer, or a line. After \<^verbatim>\<open>bytesTrimRightNewline\<close> the line is empty
  (\<open>JsonEmpty\<close>), or is rejected by \<^verbatim>\<open>json.Unmarshal\<close>, or decodes to a \<open>logEntry\<close>.
  The end of the list is \<^verbatim>\<open>io.EOF\<close>.
\<close>

datatype readItem = ReadError | BufferFull | Line "logEntry jsonText"

text \<open>The local variables of the loop: the session under construction and the two flags.\<close>

record parseState =
  session :: Session
  createdSet :: bool
  lastTS :: time

definition initialState :: "string \<Rightarrow> parseState" where
  "initialState path =
     \<lparr>session = \<lparr>ID = [], CreatedAt = 0, UpdatedAt = 0, WorkingDir = [], LastAction = [],
                  FilePaths = [path]\<rparr>,
      createdSet = False, lastTS = 0\<rparr>"

text \<open>The \<^verbatim>\<open>switch entry.Type\<close> of the loop body.\<close>

definition applySessionMeta :: "parseState \<Rightarrow> logEntry \<Rightarrow> parseError + parseState" where
  "applySessionMeta st entry =
     (if le_Type entry = ''session_meta'' then
        (case asSessionMeta (le_Payload entry) of
           None \<Rightarrow> Inl DecodeSessionMeta
         | Some payload \<Rightarrow>
             (let s1 = (session st)\<lparr>ID := sm_ID payload, WorkingDir := sm_CWD payload\<rparr> in
              case parseTimestamp (sm_Timestamp payload) of
                Some pTs \<Rightarrow> Inr (st\<lparr>session := s1\<lparr>CreatedAt := pTs\<rparr>, createdSet := True\<rparr>)
              | None \<Rightarrow> Inr (st\<lparr>session := s1\<rparr>)))
      else Inr st)"

text \<open>The test on \<^verbatim>\<open>ts\<close> and \<^verbatim>\<open>lastTS\<close> that follows the switch.\<close>

definition advance :: "parseState \<Rightarrow> logEntry \<Rightarrow> time \<Rightarrow> parseState" where
  "advance st entry ts =
     (if After ts (lastTS st) \<or> IsZero (lastTS st) then
        (let st1 = st\<lparr>lastTS := ts\<rparr>; desc = describeEntry entry in
         if desc \<noteq> [] then st1\<lparr>session := (session st1)\<lparr>LastAction := desc\<rparr>\<rparr>
         else if le_Type entry = ''session_meta'' \<and> LastAction (session st1) = [] then
           st1\<lparr>session := (session st1)\<lparr>LastAction := ''session started''\<rparr>\<rparr>
         else st1)
      else st)"

text \<open>\<^verbatim>\<open>ts\<close>: the parsed timestamp of the entry, the zero time when it does not parse.\<close>

definition entryTime :: "logEntry \<Rightarrow> time" where
  "entryTime entry = (case parseTimestamp (le_Timestamp entry) of Some t \<Rightarrow> t | None \<Rightarrow> 0)"

definition processEntry :: "parseState \<Rightarrow> logEntry \<Rightarrow> parseError + parseState" where
  "processEntry st entry =
     (let ts = entryTime entry in
      case applySessionMeta st entry of
        Inl e \<Rightarrow> Inl e
      | Inr st1 \<Rightarrow> Inr (advance st1 entry ts))"

fun parseLoop :: "parseState \<Rightarrow> readItem list \<Rightarrow> parseError + parseState" where
  "parseLoop st [] = Inr st"
| "parseLoop st (BufferFull # rest) = Inl LineTooLong"
| "parseLoop st (ReadError # rest) = Inl ReadFailed"
| "parseLoop st (Line JsonEmpty # rest) = parseLoop st rest"
| "parseLoop st (Line JsonInvalid # rest) = Inl DecodeLogEntry"
| "parseLoop st (Line (JsonValue entry) # rest) =
     (case processEntry st entry of
        Inl e \<Rightarrow> Inl e
      | Inr st1 \<Rightarrow> parseLoop st1 rest)"

text \<open>The statements after the loop.\<close>

definition finish :: "parseState \<Rightarrow> parseError + Session" where
  "finish st =
     (if ID (session st) = [] then Inl MissingSessionID
      else
        (let s1 = (session st)\<lparr>UpdatedAt := lastTS st\<rparr> in
         if \<not> createdSet st \<or> IsZero (CreatedAt s1) then Inr (s1\<lparr>CreatedAt := UpdatedAt s1\<rparr>)
         else Inr s1))"

text \<open>A file is \<open>None\<close> when \<^verbatim>\<open>os.Open\<close> fails, and otherwise what the reader delivers.\<close>

definition parseSessionFile :: "string \<Rightarrow> readItem list option \<Rightarrow> parseError + Session" where
  "parseSessionFile path file =
     (case file of
        None \<Rightarrow> Inl OpenFailed
      | Some items \<Rightarrow>
          (case parseLoop (initialState path) items of
             Inl e \<Rightarrow> Inl e
           | Inr st \<Rightarrow> finish st))"

section \<open>The session aggregator (loader.go, \<^verbatim>\<open>Load\<close>)\<close>

fun contains :: "string list \<Rightarrow> string \<Rightarrow> bool" where
  "contains [] v = False"
| "contains (x # xs) v = (if x = v then True else contains xs v)"

text \<open>The loop over \<^verbatim>\<open>session.FilePaths\<close>.\<close>

fun appendMissing :: "string list \<Rightarrow> string list \<Rightarrow> string list" where
  "appendMissing existing [] = existing"
| "appendMissing existing (fp # fps) =
     (if \<not> contains existing fp then appendMissing (existing @ [fp]) fps
      else appendMissing existing fps)"

text \<open>The merge of a parsed session into the session of record with the same ID.\<close>

definition mergeSession :: "Session \<Rightarrow> Session \<Rightarrow> Session" where
  "mergeSession existing session0 =
     (let e1 = (if Before (CreatedAt session0) (CreatedAt existing) \<or> IsZero (CreatedAt existing)
                then existing\<lparr>CreatedAt := CreatedAt session0\<rparr> else existing);
          e2 = (if After (UpdatedAt session0) (UpdatedAt e1) then
                  (let e = e1\<lparr>UpdatedAt := UpdatedAt session0, LastAction := LastAction session0\<rparr>
                   in if WorkingDir session0 \<noteq> [] then e\<lparr>WorkingDir := WorkingDir session0\<rparr> else e)
                else if WorkingDir e1 = [] \<and> WorkingDir session0 \<noteq> [] then
                  e1\<lparr>WorkingDir := WorkingDir session0\<rparr>
                else e1)
      in e2\<lparr>FilePaths := appendMissing (FilePaths e2) (FilePaths session0)\<rparr>)"

text \<open>\<^verbatim>\<open>filepath.Ext\<close>: the suffix of the last path element that starts at its last dot.\<close>

fun extFrom :: "string \<Rightarrow> string \<Rightarrow> string" where
  "extFrom [] acc = []"
| "extFrom (c # cs) acc =
     (if c = CHR ''/'' then [] else if c = CHR ''.'' then c # acc else extFrom cs (c # acc))"

definition Ext :: "string \<Rightarrow> string" where
  "Ext path = extFrom (rev path) []"

text \<open>
  What \<^verbatim>\<open>filepath.WalkDir\<close> passes to the callback, in the order of the walk: an entry
  that could not be read, a directory, or a file with what reading it delivers.
\<close>

datatype walkItem =
  WalkFailure string
| DirItem string
| FileItem string "readItem list option"

datatype loadError = WalkErr string | ParseErr string parseError

text \<open>
  \<^verbatim>\<open>byID\<close> is kept as an association list in the order of first insertion;
  \<^verbatim>\<open>combinedErr\<close> is the list of the joined errors, \<open>[]\<close> for nil.
\<close>

type_synonym loadState = "(string \<times> Session) list \<times> loadError list"

fun updateByID :: "string \<Rightarrow> Session \<Rightarrow> (string \<times> Session) list \<Rightarrow> (string \<times> Session) list" where
  "updateByID k v [] = [(k, v)]"
| "updateByID k v ((k', v') # kvs) =
     (if k = k' then (k, v) # kvs else (k', v') # updateByID k v kvs)"

fun walkFn :: "loadState \<Rightarrow> walkItem \<Rightarrow> loadState" where
  "walkFn (byID, combinedErr) (WalkFailure path) = (byID, combinedErr @ [WalkErr path])"
| "walkFn (byID, combinedErr) (DirItem path) = (byID, combinedErr)"
| "walkFn (byID, combinedErr) (FileItem path file) =
     (if Ext path \<noteq> ''.jsonl'' then (byID, combinedErr)
      else
        (case parseSessionFile path file of
           Inl e \<Rightarrow> (byID, combinedErr @ [ParseErr path e])
         | Inr session0 \<Rightarrow>
             (case map_of byID (ID session0) of
                None \<Rightarrow> (updateByID (ID session0) (Snapshot session0) byID, combinedErr)
              | Some existing \<Rightarrow>
                  (updateByID (ID session0) (mergeSession existing session0) byID, combinedErr))))"

definition walkAll :: "walkItem list \<Rightarrow> loadState" where
  "walkAll items = foldl walkFn ([], []) items"

text \<open>
  \<^verbatim>\<open>sort.Slice\<close> with the comparison \<open>lt\<close>. Go's sort is not stable and the map is
  iterated in no fixed order, so the source determines the result only up to the order of
  elements that \<open>lt\<close> does not separate. The model inserts one element after the other;
  what is proved about an order below holds for every list that is sorted by \<open>lt\<close>.
\<close>

fun insertBy :: "('a \<Rightarrow> 'a \<Rightarrow> bool) \<Rightarrow> 'a \<Rightarrow> 'a list \<Rightarrow> 'a list" where
  "insertBy lt x [] = [x]"
| "insertBy lt x (y # ys) = (if lt y x then y # insertBy lt x ys else x # y # ys)"

definition sortSlice :: "('a \<Rightarrow> 'a \<Rightarrow> bool) \<Rightarrow> 'a list \<Rightarrow> 'a list" where
  "sortSlice lt xs = foldr (insertBy lt) xs []"

text \<open>The final loop over \<^verbatim>\<open>byID\<close> (with \<^verbatim>\<open>sort.Strings\<close>) and the final sort.\<close>

definition sortPaths :: "Session \<Rightarrow> Session" where
  "sortPaths s = s\<lparr>FilePaths := sort (FilePaths s)\<rparr>"

definition emit :: "(string \<times> Session) list \<Rightarrow> Session list" where
  "emit byID =
     sortSlice (\<lambda>a b. After (UpdatedAt a) (UpdatedAt b)) (map (\<lambda>(k, s). sortPaths s) byID)"

datatype fatalError = ResolveDirFailed | StatFailed | NotADirectory

text \<open>
  What \<^verbatim>\<open>Load\<close> finds at \<^verbatim>\<open>sessionsDir\<close>: no home directory to resolve the default,
  nothing there, a failing \<^verbatim>\<open>os.Stat\<close>, something that is not a directory, or a tree to
  walk.
\<close>

datatype sessionsDir = NoHome | NotExist | StatError | NotDir | Tree "walkItem list"

fun Load :: "sessionsDir \<Rightarrow> fatalError + (Session list \<times> loadError list)" where
  "Load NoHome = Inl ResolveDirFailed"
| "Load NotExist = Inr ([], [])"
| "Load StatError = Inl StatFailed"
| "Load NotDir = Inl NotADirectory"
| "Load (Tree items) = (case walkAll items of (byID, combinedErr) \<Rightarrow> Inr (emit byID, combinedErr))"

section \<open>The session lifecycle (\<^verbatim>\<open>DeleteFiles\<close>)\<close>

subsection \<open>Paths\<close>

text \<open>The elements of a path: the pieces between the separators.\<close>

fun splitSep :: "string \<Rightarrow> string list" where
  "splitSep [] = [[]]"
| "splitSep (c # cs) =
     (if c = CHR ''/'' then [] # splitSep cs
      else (case splitSep cs of [] \<Rightarrow> [[c]] | x # xs \<Rightarrow> (c # x) # xs))"

text \<open>
  A lexically clean path, as \<^verbatim>\<open>filepath.Clean\<close> returns it: rooted or not, and its
  elements. A rooted path has no \<^verbatim>\<open>..\<close> element; in a path that is not rooted they
  stand in front. \<open>render\<close> is the string: \<^verbatim>\<open>/\<close> and the elements joined by
  \<^verbatim>\<open>/\<close>, or \<^verbatim>\<open>.\<close> for the empty relative path.
\<close>

record cleanPath =
  rooted :: bool
  elems :: "string list"

definition cleanStep :: "bool \<Rightarrow> string list \<Rightarrow> string \<Rightarrow> string list" where
  "cleanStep isRooted out e =
     (if e = [] \<or> e = ''.'' then out
      else if e = ''..'' then
        (if out \<noteq> [] \<and> last out \<noteq> ''..'' then butlast out
         else if isRooted then out
         else out @ [''..''])
      else out @ [e])"

definition cleaned :: "string \<Rightarrow> cleanPath" where
  "cleaned path =
     (let isRooted = (path \<noteq> [] \<and> hd path = CHR ''/'')
      in \<lparr>rooted = isRooted, elems = foldl (cleanStep isRooted) [] (splitSep path)\<rparr>)"

definition render :: "cleanPath \<Rightarrow> string" where
  "render p =
     (if rooted p then CHR ''/'' # Join (elems p) ''/''
      else if elems p = [] then ''.''
      else Join (elems p) ''/'')"

definition Clean :: "string \<Rightarrow> string" where
  "Clean path = render (cleaned path)"

text \<open>
  \<^verbatim>\<open>filepath.Dir\<close>: \<^verbatim>\<open>Clean\<close> of everything up to and including the last separator.
\<close>

definition Dir :: "string \<Rightarrow> string" where
  "Dir path = Clean (rev (dropWhile (\<lambda>c. c \<noteq> CHR ''/'') (rev path)))"

text \<open>\<^verbatim>\<open>filepath.Dir\<close> of a clean path drops its last element.\<close>

definition parent :: "cleanPath \<Rightarrow> cleanPath" where
  "parent p = p\<lparr>elems := butlast (elems p)\<rparr>"

text \<open>
  \<^verbatim>\<open>filepath.Rel\<close>: both paths are cleaned; equal paths give \<^verbatim>\<open>.\<close>; a rooted and
  an unrooted path have no relative path; otherwise the common leading elements are
  dropped, each remaining element of the base becomes \<^verbatim>\<open>..\<close>, and the remaining
  elements of the target follow. A base whose first differing element is \<^verbatim>\<open>..\<close> is an
  error.
\<close>

fun stripCommon :: "string list \<Rightarrow> string list \<Rightarrow> string list \<times> string list" where
  "stripCommon (b # bs) (t # ts) = (if b = t then stripCommon bs ts else (b # bs, t # ts))"
| "stripCommon bs ts = (bs, ts)"

definition Rel :: "string \<Rightarrow> string \<Rightarrow> string option" where
  "Rel basepath targpath =
     (let base = cleaned basepath; targ = cleaned targpath in
      if render targ = render base then Some ''.''
      else if rooted base \<noteq> rooted targ then None
      else
        (case stripCommon (elems base)
                (if \<not> rooted targ \<and> elems targ = [] then [''.''] else elems targ) of
           (bs, ts) \<Rightarrow>
             if bs \<noteq> [] \<and> ts \<noteq> [] \<and> hd bs = ''..'' then None
             else if bs \<noteq> [] then Some (Join (replicate (length bs) ''..'' @ ts) ''/'')
             else Some (Join ts ''/'')))"


subsection \<open>The file system\<close>

text \<open>
  The files and directories that exist, by their clean path, and the paths that the
  system refuses to remove. \<^verbatim>\<open>os.Remove\<close> fails for a path that does not exist, for a
  path it may not remove, and for a directory that still has an entry.
\<close>

datatype errno = ENOENT | EACCES | ENOTEMPTY

record fileSystem =
  files :: "string set"
  dirs :: "string set"
  denied :: "string set"

definition occupied :: "fileSystem \<Rightarrow> string \<Rightarrow> bool" where
  "occupied fs d = (\<exists>p \<in> files fs \<union> dirs fs. p \<noteq> d \<and> Dir p = d)"

definition osRemove :: "string \<Rightarrow> fileSystem \<Rightarrow> errno + fileSystem" where
  "osRemove name fs =
     (if name \<notin> files fs \<union> dirs fs then Inl ENOENT
      else if name \<in> denied fs then Inl EACCES
      else if name \<in> files fs then Inr (fs\<lparr>files := files fs - {name}\<rparr>)
      else if occupied fs name then Inl ENOTEMPTY
      else Inr (fs\<lparr>dirs := dirs fs - {name}\<rparr>))"

subsection \<open>\<^verbatim>\<open>cleanupParentDirectories\<close> and \<^verbatim>\<open>DeleteFiles\<close>\<close>

text \<open>The loop variable \<^verbatim>\<open>dir\<close> is always a clean path.\<close>

function cleanupLoop :: "cleanPath \<Rightarrow> cleanPath \<Rightarrow> fileSystem \<Rightarrow> fileSystem" where
  "cleanupLoop dir stop fs =
     (if render dir = ''.'' \<or> render dir = ''/'' then fs
      else if render stop \<noteq> [] \<and>
              (case Rel (render stop) (render dir) of
                 None \<Rightarrow> True
               | Some rel \<Rightarrow> prefix ''..'' rel) then fs
      else
        (case osRemove (render dir) fs of
           Inl e \<Rightarrow> fs
         | Inr fs1 \<Rightarrow>
             if render dir = render stop then fs1 else cleanupLoop (parent dir) stop fs1))"
  by pat_completeness auto
termination
proof (relation "measure (\<lambda>(dir, stop, fs). length (elems dir))")
  show "wf (measure (\<lambda>(dir, stop, fs). length (elems dir)))"
    by simp
next
  fix dir stop :: cleanPath and fs x2 :: fileSystem
  assume "\<not> (render dir = ''.'' \<or> render dir = ''/'')"
  then have "elems dir \<noteq> []"
    by (auto simp: render_def split: if_splits)
  then show "((parent dir, stop, x2), dir, stop, fs) \<in> measure (\<lambda>(dir, stop, fs). length (elems dir))"
    by (simp add: parent_def)
qed

definition cleanupParentDirectories :: "string \<Rightarrow> string \<Rightarrow> fileSystem \<Rightarrow> fileSystem" where
  "cleanupParentDirectories start stop fs = cleanupLoop (cleaned start) (cleaned stop) fs"

text \<open>
  \<^verbatim>\<open>combined\<close> is the list of the joined errors, \<open>[]\<close> for nil.
\<close>

datatype deleteError = RemoveError string errno

fun deleteLoop ::
  "string \<Rightarrow> string list \<Rightarrow> fileSystem \<times> deleteError list \<Rightarrow> fileSystem \<times> deleteError list" where
  "deleteLoop root [] (fs, combined) = (fs, combined)"
| "deleteLoop root (path # paths) (fs, combined) =
     (case osRemove path fs of
        Inl e \<Rightarrow>
          (if e \<noteq> ENOENT then deleteLoop root paths (fs, combined @ [RemoveError path e])
           else deleteLoop root paths (cleanupParentDirectories (Dir path) root fs, combined))
      | Inr fs1 \<Rightarrow> deleteLoop root paths (cleanupParentDirectories (Dir path) root fs1, combined))"

definition DeleteFiles :: "Session \<Rightarrow> string \<Rightarrow> fileSystem \<Rightarrow> fileSystem \<times> deleteError list" where
  "DeleteFiles sess sessionsRoot fs =
     (let root = (if sessionsRoot \<noteq> [] then Clean sessionsRoot else sessionsRoot)
      in deleteLoop root (FilePaths sess) (fs, []))"

section \<open>The selection model (ui.go)\<close>

text \<open>
  The functions of the libraries that the model calls on text:
  \<^verbatim>\<open>t.Format(time.RFC3339)\<close>, \<^verbatim>\<open>strings.ToLower\<close>, and the fuzzy matcher, which for a
  query and a key returns the distance of the match, or nothing when the key does not
  match. They are parameters of the model.
\<close>

record textLib =
  formatRFC3339 :: "time \<Rightarrow> string"
  ToLower :: "string \<Rightarrow> string"
  rankMatchFold :: "string \<Rightarrow> string \<Rightarrow> int option"

text \<open>
  A rune is a code point. \<open>encodeRune\<close> is the conversion \<^verbatim>\<open>string(r)\<close>: the UTF-8
  encoding, and that of U+FFFD for a value that is not a valid code point.
\<close>

type_synonym rune = nat

definition encodeRune :: "rune \<Rightarrow> string" where
  "encodeRune r =
     (if r < 0x80 then [char_of r]
      else if r < 0x800 then [char_of (0xC0 + r div 64), char_of (0x80 + r mod 64)]
      else if (0xD800 \<le> r \<and> r \<le> 0xDFFF) \<or> 0x10FFFF < r then [CHR 0xEF, CHR 0xBF, CHR 0xBD]
      else if r < 0x10000 then
        [char_of (0xE0 + r div 4096), char_of (0x80 + (r div 64) mod 64), char_of (0x80 + r mod 64)]
      else
        [char_of (0xF0 + r div 262144), char_of (0x80 + (r div 4096) mod 64),
         char_of (0x80 + (r div 64) mod 64), char_of (0x80 + r mod 64)])"

text \<open>\<^verbatim>\<open>unicode.IsControl\<close>: the code points of category Cc.\<close>

definition IsControl :: "rune \<Rightarrow> bool" where
  "IsControl r = (r < 0x20 \<or> (0x7F \<le> r \<and> r < 0xA0))"

record row =
  row_session :: Session
  searchKey :: string

text \<open>
  The fields of the model that are not widgets. The query is only ever built by
  appending \<^verbatim>\<open>string(r)\<close> and by \<^verbatim>\<open>dropLastRune\<close>, so it is kept as the list of its
  runes; \<open>queryText\<close> is the Go string. \<open>filtered\<close> holds indices into \<open>entries\<close>,
  which are never negative. \<open>stopped\<close> records \<^verbatim>\<open>app.Stop()\<close>.
\<close>

record model =
  entries :: "row list"
  filtered :: "nat list"
  selected :: int
  pageSize :: int
  query :: "rune list"
  status :: string
  sessionsRoot :: string
  resumeID :: string
  stopped :: bool

definition queryText :: "rune list \<Rightarrow> string" where
  "queryText q = concat (map encodeRune q)"

definition defaultPageLen :: int where
  "defaultPageLen = 10"

definition searchKeyOf :: "textLib \<Rightarrow> Session \<Rightarrow> string" where
  "searchKeyOf L sess =
     ToLower L (Join [ID sess, WorkingDir sess, LastAction sess,
                      formatRFC3339 L (CreatedAt sess), formatRFC3339 L (UpdatedAt sess)] '' '')"

definition newModel :: "textLib \<Rightarrow> Session list \<Rightarrow> string \<Rightarrow> string \<Rightarrow> model" where
  "newModel L items root initialStatus =
     \<lparr>entries = map (\<lambda>sess. \<lparr>row_session = sess, searchKey = searchKeyOf L sess\<rparr>) items,
      filtered = [], selected = 0, pageSize = defaultPageLen, query = [],
      status = initialStatus, sessionsRoot = root, resumeID = [], stopped = False\<rparr>"

text \<open>
  \<^verbatim>\<open>fuzzy.RankFindFold\<close>: one rank for every target that matches, in the order of
  the targets, with the distance and the index of the target.
\<close>

record rank =
  Distance :: int
  OriginalIndex :: nat

fun rankFindFrom :: "(string \<Rightarrow> string \<Rightarrow> int option) \<Rightarrow> string \<Rightarrow> nat \<Rightarrow> string list \<Rightarrow> rank list" where
  "rankFindFrom f source i [] = []"
| "rankFindFrom f source i (t # ts) =
     (case f source t of
        None \<Rightarrow> rankFindFrom f source (Suc i) ts
      | Some d \<Rightarrow> \<lparr>Distance = d, OriginalIndex = i\<rparr> # rankFindFrom f source (Suc i) ts)"

definition RankFindFold :: "textLib \<Rightarrow> string \<Rightarrow> string list \<Rightarrow> rank list" where
  "RankFindFold L source targets = rankFindFrom (rankMatchFold L) source 0 targets"

text \<open>The comparison given to \<^verbatim>\<open>sort.Slice\<close> in \<^verbatim>\<open>applyFilter\<close>.\<close>

definition rankLess :: "row list \<Rightarrow> rank \<Rightarrow> rank \<Rightarrow> bool" where
  "rankLess rows a b =
     (if Distance a = Distance b then
        (let sessA = row_session (rows ! OriginalIndex a);
             sessB = row_session (rows ! OriginalIndex b)
         in if UpdatedAt sessA = UpdatedAt sessB then ID sessA < ID sessB
            else After (UpdatedAt sessA) (UpdatedAt sessB))
      else Distance a < Distance b)"

definition applyFilter :: "textLib \<Rightarrow> model \<Rightarrow> model" where
  "applyFilter L m =
     (if entries m = [] then m\<lparr>filtered := [], selected := 0\<rparr>
      else
        (let query0 = TrimSpace (queryText (query m));
             m1 = (if query0 = [] then m\<lparr>filtered := [0..<length (entries m)]\<rparr>
                   else
                     (let keys = map searchKey (entries m);
                          results = sortSlice (rankLess (entries m)) (RankFindFold L query0 keys)
                      in m\<lparr>filtered := map OriginalIndex results\<rparr>))
         in if filtered m1 = [] then m1\<lparr>selected := 0\<rparr>
            else
              (let m2 = (if selected m1 \<ge> int (length (filtered m1))
                         then m1\<lparr>selected := int (length (filtered m1)) - 1\<rparr> else m1)
               in if selected m2 < 0 then m2\<lparr>selected := 0\<rparr> else m2)))"

text \<open>
  The function given to \<^verbatim>\<open>SetSelectionChangedFunc\<close>. The table widget calls it with
  the row whenever \<^verbatim>\<open>table.Select\<close> is called and whenever the widget itself moves the
  selection.
\<close>

definition selectionChanged :: "int \<Rightarrow> model \<Rightarrow> model" where
  "selectionChanged row0 m =
     (if row0 \<le> 0 \<or> filtered m = [] then m\<lparr>selected := 0\<rparr>
      else
        (let idx = row0 - 1;
             idx1 = (if idx \<ge> int (length (filtered m)) then int (length (filtered m)) - 1 else idx)
         in m\<lparr>selected := idx1\<rparr>))"

text \<open>The function given to \<^verbatim>\<open>SetDrawFunc\<close>, called with the height of the table.\<close>

definition drawn :: "int \<Rightarrow> model \<Rightarrow> model" where
  "drawn height m = (let visible = height - 1 in m\<lparr>pageSize := (if visible < 1 then 1 else visible)\<rparr>)"

text \<open>
  A Go \<^verbatim>\<open>int\<close> has 64 bits; \<open>wrap64\<close> is what an addition leaves when it overflows.
\<close>

definition wrap64 :: "int \<Rightarrow> int" where
  "wrap64 x = (x + 2 ^ 63) mod 2 ^ 64 - 2 ^ 63"

definition moveSelectionBy :: "int \<Rightarrow> model \<Rightarrow> model" where
  "moveSelectionBy delta m =
     (if filtered m = [] then m
      else
        (let next0 = wrap64 (selected m + delta);
             next1 = (if next0 < 0 then 0
                      else if next0 \<ge> int (length (filtered m)) then int (length (filtered m)) - 1
                      else next0);
             m1 = m\<lparr>selected := next1\<rparr>
         in selectionChanged (selected m1 + 1) m1))"

text \<open>
  \<^verbatim>\<open>refreshTable\<close> reads \<^verbatim>\<open>m.entries[idx]\<close> for every filtered index, which panics
  for an index out of range (\<open>None\<close>), clamps the selection and selects the row in the
  table. The two other refresh functions only write to their views.
\<close>

definition refreshTable :: "model \<Rightarrow> model option" where
  "refreshTable m =
     (if \<not> list_all (\<lambda>idx. idx < length (entries m)) (filtered m) then None
      else if filtered m \<noteq> [] then
        (let m1 = (if selected m \<ge> int (length (filtered m))
                   then m\<lparr>selected := int (length (filtered m)) - 1\<rparr> else m)
         in Some (selectionChanged (selected m1 + 1) m1))
      else Some (selectionChanged 0 m))"

definition setStatus :: "string \<Rightarrow> model \<Rightarrow> model" where
  "setStatus text0 m = m\<lparr>status := text0\<rparr>"

text \<open>The text of the error that \<^verbatim>\<open>DeleteFiles\<close> returns, as \<^verbatim>\<open>%v\<close> prints it.\<close>

fun errnoText :: "errno \<Rightarrow> string" where
  "errnoText ENOENT = ''no such file or directory''"
| "errnoText EACCES = ''permission denied''"
| "errnoText ENOTEMPTY = ''directory not empty''"

fun deleteErrorText :: "deleteError \<Rightarrow> string" where
  "deleteErrorText (RemoveError path e) =
     ''remove '' @ path @ '': remove '' @ path @ '': '' @ errnoText e"

definition combinedText :: "deleteError list \<Rightarrow> string" where
  "combinedText errs = Join (map deleteErrorText errs) [CHR 0x0A]"

text \<open>
  \<^verbatim>\<open>deleteSelected\<close>, on the file system and the model. An index out of range is a
  panic, \<open>None\<close>.
\<close>

definition deleteSelected :: "textLib \<Rightarrow> fileSystem \<times> model \<Rightarrow> (fileSystem \<times> model) option" where
  "deleteSelected L st =
     (case st of (fs, m) \<Rightarrow>
        if filtered m = [] then Some (fs, setStatus ''Nothing to delete'' m)
        else if selected m < 0 \<or> selected m \<ge> int (length (filtered m)) then None
        else
          (let idx = filtered m ! nat (selected m) in
           if idx \<ge> length (entries m) then None
           else
             (let sess = row_session (entries m ! idx) in
              case DeleteFiles sess (sessionsRoot m) fs of
                (fs1, errs) \<Rightarrow>
                  if errs \<noteq> [] then
                    Some (fs1, setStatus (''Delete failed: '' @ combinedText errs) m)
                  else
                    (let m1 = m\<lparr>entries := take idx (entries m) @ drop (Suc idx) (entries m)\<rparr>;
                         m2 = setStatus (''Session '' @ ID sess @ '' deleted'') m1
                     in Some (fs1, applyFilter L m2)))))"

definition dropLastRune :: "rune list \<Rightarrow> rune list" where
  "dropLastRune val = (if val = [] then val else if length val \<le> 1 then [] else butlast val)"

datatype key =
  KeyRune rune | KeyBackspace | KeyEsc | KeyEnter | KeyDelete | KeyPgDn | KeyPgUp | KeyCtrlC
| KeyOther

text \<open>
  \<^verbatim>\<open>handleEvent\<close>. What it returns to the application, the event or nil, is left out.
  \<^verbatim>\<open>-m.pageSize\<close> wraps like every \<^verbatim>\<open>int\<close>.
\<close>

definition refreshed :: "fileSystem \<times> model \<Rightarrow> (fileSystem \<times> model) option" where
  "refreshed st = (case st of (fs, m) \<Rightarrow> map_option (\<lambda>m1. (fs, m1)) (refreshTable m))"

fun handleEvent :: "textLib \<Rightarrow> key \<Rightarrow> fileSystem \<times> model \<Rightarrow> (fileSystem \<times> model) option" where
  "handleEvent L (KeyRune r) (fs, m) =
     (if IsControl r then Some (fs, m)
      else refreshed (fs, applyFilter L (m\<lparr>query := query m @ [r]\<rparr>)))"
| "handleEvent L KeyBackspace (fs, m) =
     (if query m \<noteq> [] then refreshed (fs, applyFilter L (m\<lparr>query := dropLastRune (query m)\<rparr>))
      else Some (fs, m))"
| "handleEvent L KeyEsc (fs, m) =
     (if query m \<noteq> [] then refreshed (fs, applyFilter L (m\<lparr>query := []\<rparr>))
      else Some (fs, m\<lparr>resumeID := [], stopped := True\<rparr>))"
| "handleEvent L KeyEnter (fs, m) =
     (if filtered m = [] then Some (fs, m)
      else if selected m < 0 \<or> selected m \<ge> int (length (filtered m)) then None
      else
        (let idx = filtered m ! nat (selected m) in
         if idx \<ge> length (entries m) then None
         else Some (fs, m\<lparr>resumeID := ID (row_session (entries m ! idx)), stopped := True\<rparr>)))"
| "handleEvent L KeyDelete (fs, m) =
     (case deleteSelected L (fs, m) of
        None \<Rightarrow> None
      | Some st \<Rightarrow> refreshed st)"
| "handleEvent L KeyPgDn (fs, m) = Some (fs, moveSelectionBy (pageSize m) m)"
| "handleEvent L KeyPgUp (fs, m) = Some (fs, moveSelectionBy (wrap64 (- pageSize m)) m)"
| "handleEvent L KeyCtrlC (fs, m) = Some (fs, m\<lparr>resumeID := [], stopped := True\<rparr>)"
| "handleEvent L KeyOther (fs, m) = Some (fs, m)"

text \<open>
  What reaches the model while the application runs: a key, a selection change made by
  the table widget itself, or a redraw of the table.
\<close>

datatype input = Key key | TableSelection int | TableDraw int

fun step :: "textLib \<Rightarrow> input \<Rightarrow> fileSystem \<times> model \<Rightarrow> (fileSystem \<times> model) option" where
  "step L (Key k) st = handleEvent L k st"
| "step L (TableSelection row0) (fs, m) = Some (fs, selectionChanged row0 m)"
| "step L (TableDraw height) (fs, m) = Some (fs, drawn height m)"

fun steps :: "textLib \<Rightarrow> input list \<Rightarrow> fileSystem \<times> model \<Rightarrow> (fileSystem \<times> model) option" where
  "steps L [] st = Some st"
| "steps L (i # is) st = (case step L i st of None \<Rightarrow> None | Some st1 \<Rightarrow> steps L is st1)"

text \<open>The model when \<^verbatim>\<open>run\<close> hands control to the application.\<close>

definition started :: "textLib \<Rightarrow> Session list \<Rightarrow> string \<Rightarrow> string \<Rightarrow> model option" where
  "started L items root initialStatus =
     map_option (\<lambda>m. setStatus (status m) m) (refreshTable (applyFilter L (newModel L items root initialStatus)))"

section \<open>Notions used to state the properties\<close>

text \<open>The entries of a file: the lines that decode, in file order.\<close>

fun fileEntries :: "readItem list \<Rightarrow> logEntry list" where
  "fileEntries [] = []"
| "fileEntries (Line (JsonValue e) # rest) = e # fileEntries rest"
| "fileEntries (_ # rest) = fileEntries rest"

text \<open>The latest of a list of instants, the zero time for the empty list.\<close>

primrec maxTime :: "time list \<Rightarrow> time" where
  "maxTime [] = 0"
| "maxTime (t # ts) = max t (maxTime ts)"

text \<open>An entry is described when the event describer returns a non-empty synopsis.\<close>

definition described :: "logEntry \<Rightarrow> bool" where
  "described e = (describeEntry e \<noteq> [])"

definition describedTimes :: "readItem list \<Rightarrow> time list" where
  "describedTimes items = map entryTime (filter described (fileEntries items))"

text \<open>The decoded payloads of the \<^verbatim>\<open>session_meta\<close> entries, in file order.\<close>

fun metaPayloads :: "logEntry list \<Rightarrow> sessionMetaPayload list" where
  "metaPayloads [] = []"
| "metaPayloads (e # es) =
     (if le_Type e = ''session_meta'' then
        (case asSessionMeta (le_Payload e) of
           Some p \<Rightarrow> p # metaPayloads es
         | None \<Rightarrow> metaPayloads es)
      else metaPayloads es)"

text \<open>The metadata timestamps that parse, in file order.\<close>

fun metaTimes :: "sessionMetaPayload list \<Rightarrow> time list" where
  "metaTimes [] = []"
| "metaTimes (p # ps) =
     (case parseTimestamp (sm_Timestamp p) of
        Some t \<Rightarrow> t # metaTimes ps
      | None \<Rightarrow> metaTimes ps)"

subsection \<open>The snippet rule in the words of the specification\<close>








text \<open>
  A file that the parser reads to its end: no read error, no line that fails to decode,
  and every \<^verbatim>\<open>session_meta\<close> payload decodes.
\<close>

fun readable :: "readItem list \<Rightarrow> bool" where
  "readable [] = True"
| "readable (Line JsonEmpty # rest) = readable rest"
| "readable (Line (JsonValue e) # rest) =
     ((if le_Type e = ''session_meta'' then asSessionMeta (le_Payload e) \<noteq> None else True) \<and>
      readable rest)"
| "readable (_ # rest) = False"

text \<open>
  The session identifier that a file yields: the \<^verbatim>\<open>id\<close> of its last
  \<^verbatim>\<open>session_meta\<close> record, empty when it has none.
\<close>

definition fileID :: "readItem list \<Rightarrow> string" where
  "fileID items =
     (if metaPayloads (fileEntries items) = [] then []
      else sm_ID (last (metaPayloads (fileEntries items))))"

text \<open>The two components of one step of the walk, and the paths of the files walked.\<close>

definition itemErrors :: "walkItem \<Rightarrow> loadError list" where
  "itemErrors x = snd (walkFn ([], []) x)"

definition stepByID :: "(string \<times> Session) list \<Rightarrow> walkItem \<Rightarrow> (string \<times> Session) list" where
  "stepByID byID x = fst (walkFn (byID, []) x)"

fun itemPaths :: "walkItem list \<Rightarrow> string list" where
  "itemPaths [] = []"
| "itemPaths (FileItem path fl # rest) = path # itemPaths rest"
| "itemPaths (_ # rest) = itemPaths rest"

subsection \<open>Clean paths\<close>

text \<open>
  An element that is a name: not empty, without separator, neither \<^verbatim>\<open>.\<close> nor
  \<^verbatim>\<open>..\<close>. A path is in clean form when its elements are names, after leading
  \<^verbatim>\<open>..\<close> elements if it is not rooted. \<open>formed\<close> says the same of a list of elements
  with the count of the leading \<^verbatim>\<open>..\<close> made explicit, and \<open>dirPrefix\<close> is the part of
  a path that \<^verbatim>\<open>filepath.Dir\<close> cleans.
\<close>

definition properElem :: "string \<Rightarrow> bool" where
  "properElem e = (e \<noteq> [] \<and> CHR ''/'' \<notin> set e \<and> e \<noteq> ''.'' \<and> e \<noteq> ''..'')"

definition cleanForm :: "cleanPath \<Rightarrow> bool" where
  "cleanForm p =
     (if rooted p then list_all properElem (elems p)
      else list_all properElem (dropWhile (\<lambda>e. e = ''..'') (elems p)))"

definition dirPrefix :: "string \<Rightarrow> string" where
  "dirPrefix path = rev (dropWhile (\<lambda>c. c \<noteq> CHR ''/'') (rev path))"

definition formed :: "bool \<Rightarrow> string list \<Rightarrow> bool" where
  "formed r out = (\<exists>k ps. out = replicate k ''..'' @ ps \<and> list_all properElem ps \<and> (r \<longrightarrow> k = 0))"

subsection \<open>The selection model\<close>

text \<open>
  The selection is in bounds: zero when nothing is filtered, an index into \<open>filtered\<close>
  otherwise. The filtered indices are valid when each is an index into \<open>entries\<close>.
\<close>

definition inBounds :: "model \<Rightarrow> bool" where
  "inBounds m =
     (if filtered m = [] then selected m = 0
      else 0 \<le> selected m \<and> selected m \<le> int (length (filtered m)) - 1)"

definition indicesValid :: "model \<Rightarrow> bool" where
  "indicesValid m = list_all (\<lambda>idx. idx < length (entries m)) (filtered m)"

text \<open>
  The distance of the match of row \<open>i\<close>, and the triple by which the rows are ranked:
  ascending distance, then descending \<open>UpdatedAt\<close>, then ascending \<open>ID\<close>, in the
  lexicographic order of the triple. \<open>sortKey\<close> is the same triple for a rank.
\<close>

definition matchDistance :: "textLib \<Rightarrow> string \<Rightarrow> row list \<Rightarrow> nat \<Rightarrow> int option" where
  "matchDistance L q rows i = rankMatchFold L q (searchKey (rows ! i))"

definition rankKey :: "textLib \<Rightarrow> string \<Rightarrow> row list \<Rightarrow> nat \<Rightarrow> int \<times> int \<times> string" where
  "rankKey L q rows i =
     ((case matchDistance L q rows i of Some d \<Rightarrow> d | None \<Rightarrow> 0),
      - UpdatedAt (row_session (rows ! i)),
      ID (row_session (rows ! i)))"

definition sortKey :: "row list \<Rightarrow> rank \<Rightarrow> int \<times> int \<times> string" where
  "sortKey rows r =
     (Distance r, - UpdatedAt (row_session (rows ! OriginalIndex r)),
      ID (row_session (rows ! OriginalIndex r)))"

subsection \<open>Example inputs\<close>

text \<open>
  The three decodings of the JSON objects
  \<^verbatim>\<open>{"id": i, "timestamp": t, "cwd": c}\<close>, \<^verbatim>\<open>{"type": k, "message": m}\<close> and \<^verbatim>\<open>{}\<close>:
  keys that a struct does not have are ignored, and fields without a key stay empty.
\<close>

definition noResponseItem :: responseItemPayload where
  "noResponseItem =
     \<lparr>ri_Type = [], ri_Role = [], ri_Content = [], ri_Name = [], ri_Arguments = JsonEmpty,
      ri_Output = JsonEmpty, ri_Summary = [], ri_Error = None, ri_Title = []\<rparr>"

definition metaObject :: "string \<Rightarrow> timestampText \<Rightarrow> string \<Rightarrow> rawMessage" where
  "metaObject i t c =
     \<lparr>asSessionMeta = Some \<lparr>sm_ID = i, sm_Timestamp = t, sm_CWD = c\<rparr>,
      asResponseItem = Some noResponseItem,
      asEventMsg = Some \<lparr>em_Type = [], em_Message = [], em_Text = []\<rparr>\<rparr>"

definition eventObject :: "string \<Rightarrow> string \<Rightarrow> rawMessage" where
  "eventObject k m =
     \<lparr>asSessionMeta = Some \<lparr>sm_ID = [], sm_Timestamp = TsEmpty, sm_CWD = []\<rparr>,
      asResponseItem = Some (noResponseItem\<lparr>ri_Type := k\<rparr>),
      asEventMsg = Some \<lparr>em_Type = k, em_Message = m, em_Text = []\<rparr>\<rparr>"

definition emptyObject :: rawMessage where
  "emptyObject =
     \<lparr>asSessionMeta = Some \<lparr>sm_ID = [], sm_Timestamp = TsEmpty, sm_CWD = []\<rparr>,
      asResponseItem = Some noResponseItem,
      asEventMsg = Some \<lparr>em_Type = [], em_Message = [], em_Text = []\<rparr>\<rparr>"

definition entryLine :: "timestampText \<Rightarrow> string \<Rightarrow> rawMessage \<Rightarrow> readItem" where
  "entryLine t k raw = Line (JsonValue \<lparr>le_Timestamp = t, le_Type = k, le_Payload = raw\<rparr>)"

text \<open>
  A log with a \<^verbatim>\<open>session_meta\<close> record at instant 5, a user message at instant 10 and
  a record of a type that the describer does not know at instant 20.
\<close>

definition logWithUndescribed :: "readItem list" where
  "logWithUndescribed =
     [entryLine (TsTime 5) ''session_meta'' (metaObject ''S1'' (TsTime 5) ''/w''),
      entryLine (TsTime 10) ''event_msg'' (eventObject ''user_message'' ''hello''),
      entryLine (TsTime 20) ''turn_context'' emptyObject]"

text \<open>
  Two fragments of session \<^verbatim>\<open>S1\<close>: the first carries the metadata timestamp 100, the
  second has a \<^verbatim>\<open>session_meta\<close> record without any timestamp.
\<close>

definition fragmentDated :: "readItem list" where
  "fragmentDated = [entryLine (TsTime 100) ''session_meta'' (metaObject ''S1'' (TsTime 100) ''/w'')]"

definition fragmentUndated :: "readItem list" where
  "fragmentUndated = [entryLine TsEmpty ''session_meta'' (metaObject ''S1'' TsEmpty [])]"

definition treeDatedUndated :: sessionsDir where
  "treeDatedUndated =
     Tree [DirItem ''/r'', FileItem ''/r/a.jsonl'' (Some fragmentDated),
           FileItem ''/r/b.jsonl'' (Some fragmentUndated)]"

text \<open>A session of record and a later fragment of the same session.\<close>

definition recordOfRecord :: Session where
  "recordOfRecord =
     \<lparr>ID = ''S1'', CreatedAt = 5, UpdatedAt = 10, WorkingDir = ''/w'',
      LastAction = ''user_message: hello'', FilePaths = [''/r/b.jsonl'']\<rparr>"

definition laterFragment :: Session where
  "laterFragment =
     \<lparr>ID = ''S1'', CreatedAt = 7, UpdatedAt = 20, WorkingDir = ''/v'',
      LastAction = ''assistant_message: hi there'', FilePaths = [''/r/a.jsonl'']\<rparr>"

text \<open>A log with two \<^verbatim>\<open>session_meta\<close> records, and a log without any.\<close>

definition logTwoMetas :: "readItem list" where
  "logTwoMetas =
     [entryLine (TsTime 5) ''session_meta'' (metaObject ''S1'' (TsTime 3) ''/w''),
      entryLine (TsTime 7) ''session_meta'' (metaObject ''S2'' (TsTime 9) ''/v'')]"

definition logNoID :: "readItem list" where
  "logNoID = [entryLine (TsTime 10) ''event_msg'' (eventObject ''user_message'' ''hello'')]"

definition walkBefore :: "walkItem list" where
  "walkBefore = [DirItem ''/r'', FileItem ''/r/a.jsonl'' (Some fragmentDated)]"

definition walkAfter :: "walkItem list" where
  "walkAfter = [FileItem ''/r/z.jsonl'' (Some logTwoMetas)]"

text \<open>
  A library for the examples: an instant is printed as a number, letters are lowered in
  ASCII, and a key matches a query whose letters occur in it in order, at the distance of
  the difference in length.
\<close>

fun isSubsequence :: "string \<Rightarrow> string \<Rightarrow> bool" where
  "isSubsequence [] t = True"
| "isSubsequence (c # cs) [] = False"
| "isSubsequence (c # cs) (d # ds) = (if c = d then isSubsequence cs ds else isSubsequence (c # cs) ds)"

definition asciiLower :: "char \<Rightarrow> char" where
  "asciiLower c = (if CHR ''A'' \<le> c \<and> c \<le> CHR ''Z'' then char_of (of_char c + (32::nat)) else c)"

definition exampleLib :: textLib where
  "exampleLib =
     \<lparr>formatRFC3339 = showInt, ToLower = map asciiLower,
      rankMatchFold = (\<lambda>q k. if isSubsequence (map asciiLower q) (map asciiLower k)
                              then Some (int (length k) - int (length q)) else None)\<rparr>"

text \<open>
  Two sessions under the root \<^verbatim>\<open>/r\<close>, each with one file in a directory of its own,
  and the model that \<^verbatim>\<open>run\<close> starts with.
\<close>

definition soleSession :: Session where
  "soleSession =
     \<lparr>ID = ''S1'', CreatedAt = 5, UpdatedAt = 10, WorkingDir = ''/w'',
      LastAction = ''user_message: hello'', FilePaths = [''/r/sub/a.jsonl'']\<rparr>"

definition otherSession :: Session where
  "otherSession =
     \<lparr>ID = ''S2'', CreatedAt = 7, UpdatedAt = 30, WorkingDir = ''/v'',
      LastAction = ''assistant_message: hi there'', FilePaths = [''/r/keep/b.jsonl'']\<rparr>"

definition twoSessionTree :: fileSystem where
  "twoSessionTree =
     \<lparr>files = {''/r/sub/a.jsonl'', ''/r/keep/b.jsonl''},
      dirs = {''/'', ''/r'', ''/r/sub'', ''/r/keep''}, denied = {}\<rparr>"

definition twoRows :: model where
  "twoRows = applyFilter exampleLib (newModel exampleLib [otherSession, soleSession] ''/r'' [])"

definition queriedRows :: model where
  "queriedRows = twoRows\<lparr>query := [0x73]\<rparr>"

definition secondSelected :: model where
  "secondSelected = twoRows\<lparr>selected := 1\<rparr>"

text \<open>
  A root that holds nothing but the directory of one session, and a root with a session
  directory whose name starts with two dots.
\<close>

definition soleSubdirTree :: fileSystem where
  "soleSubdirTree =
     \<lparr>files = {''/r/sub/a.jsonl''}, dirs = {''/'', ''/r'', ''/r/sub''}, denied = {}\<rparr>"

definition dottedSubdirTree :: fileSystem where
  "dottedSubdirTree =
     \<lparr>files = {''/r/..old/a.jsonl'', ''/r/keep.jsonl''}, dirs = {''/'', ''/r'', ''/r/..old''},
      denied = {}\<rparr>"

section \<open>Properties of the parser and the aggregator\<close>

lemmas parse_defs =
  parseSessionFile_def initialState_def processEntry_def applySessionMeta_def advance_def
  entryTime_def describeEntry_def describeEventMessage_def describeResponseItem_def finish_def
  After_def IsZero_def Before_def entryLine_def metaObject_def eventObject_def emptyObject_def
  noResponseItem_def

lemmas snippet_defs =
  compactSnippet_def TrimSpace_def Fields_def spaceWidth_def spaceRunes_def snippetLimit_def

lemma contains_iff: "contains xs v \<longleftrightarrow> v \<in> set xs"
  by (induction xs) auto

lemma set_appendMissing: "set (appendMissing e n) = set e \<union> set n"
  by (induction e n rule: appendMissing.induct) (auto simp: contains_iff)

lemma distinct_appendMissing: "distinct e \<Longrightarrow> distinct (appendMissing e n)"
  by (induction e n rule: appendMissing.induct) (auto simp: contains_iff)

lemma advance_lastTS:
  "lastTS (advance st e ts) = (if ts > lastTS st \<or> lastTS st = 0 then ts else lastTS st)"
  by (simp add: advance_def After_def IsZero_def Let_def)

lemma advance_keeps:
  "ID (session (advance st e ts)) = ID (session st)"
  "WorkingDir (session (advance st e ts)) = WorkingDir (session st)"
  "CreatedAt (session (advance st e ts)) = CreatedAt (session st)"
  "FilePaths (session (advance st e ts)) = FilePaths (session st)"
  "createdSet (advance st e ts) = createdSet st"
  by (simp_all add: advance_def Let_def)

lemma applySessionMeta_lastTS:
  "applySessionMeta st e = Inr st1 \<Longrightarrow> lastTS st1 = lastTS st"
  by (auto simp: applySessionMeta_def Let_def split: if_splits option.splits)

lemma processEntry_lastTS:
  "processEntry st e = Inr st1 \<Longrightarrow>
     lastTS st1 = (if entryTime e > lastTS st \<or> lastTS st = 0 then entryTime e else lastTS st)"
  by (auto simp: processEntry_def Let_def advance_lastTS dest!: applySessionMeta_lastTS
      split: sum.splits)

lemma parseLoop_lastTS:
  "parseLoop st items = Inr st1 \<Longrightarrow> 0 \<le> lastTS st \<Longrightarrow>
   \<forall>e \<in> set (fileEntries items). 0 \<le> entryTime e \<Longrightarrow>
     lastTS st1 = max (lastTS st) (maxTime (map entryTime (fileEntries items)))"
proof (induction st items rule: parseLoop.induct)
  case (6 st entry rest)
  from "6.prems"(1) obtain st2
    where p: "processEntry st entry = Inr st2" and l: "parseLoop st2 rest = Inr st1"
    by (auto split: sum.splits)
  have t: "lastTS st2 =
      (if entryTime entry > lastTS st \<or> lastTS st = 0 then entryTime entry else lastTS st)"
    using processEntry_lastTS[OF p] .
  have nn: "0 \<le> lastTS st2"
    using t "6.prems" by auto
  have "lastTS st1 = max (lastTS st2) (maxTime (map entryTime (fileEntries rest)))"
    using "6.IH"[OF p l nn] "6.prems"(3) by simp
  then show ?case
    using t "6.prems" by auto
qed auto

lemma finish_UpdatedAt: "finish st = Inr s \<Longrightarrow> UpdatedAt s = lastTS st"
  by (auto simp: finish_def Let_def split: if_splits)

lemma maxTime_nonneg: "0 \<le> maxTime ts"
  by (induction ts) auto

text \<open>
  Claim C1, as the code has it. The loop moves \<^verbatim>\<open>lastTS\<close> to the timestamp of an entry
  before it asks for the description, so every entry counts, described or not. For a file
  that parses and whose timestamps are not before the zero time, \<open>UpdatedAt\<close> is the
  latest timestamp among all entries of the file, an entry without a parseable timestamp
  counting as the zero time; it is the zero time when no entry is later than that.
\<close>

theorem parse_UpdatedAt_latest_of_all_entries:
  assumes "parseSessionFile path (Some items) = Inr s"
    and "\<forall>e \<in> set (fileEntries items). 0 \<le> entryTime e"
  shows "UpdatedAt s = maxTime (map entryTime (fileEntries items))"
proof -
  from assms(1) obtain st
    where l: "parseLoop (initialState path) items = Inr st" and f: "finish st = Inr s"
    by (auto simp: parseSessionFile_def split: sum.splits)
  have "lastTS st = max (lastTS (initialState path)) (maxTime (map entryTime (fileEntries items)))"
    using parseLoop_lastTS[OF l _ assms(2)] by (simp add: initialState_def)
  then show ?thesis
    using finish_UpdatedAt[OF f] maxTime_nonneg[of "map entryTime (fileEntries items)"]
    by (simp add: initialState_def)
qed

theorem parse_UpdatedAt_latest_of_all_entries_witness:
  "parseSessionFile ''/r/a.jsonl'' (Some logWithUndescribed) =
     Inr \<lparr>ID = ''S1'', CreatedAt = 5, UpdatedAt = 20, WorkingDir = ''/w'',
          LastAction = ''user_message: hello'', FilePaths = [''/r/a.jsonl'']\<rparr> \<and>
   maxTime (map entryTime (fileEntries logWithUndescribed)) = 20"
proof -
  have p: "parseSessionFile ''/r/a.jsonl'' (Some logWithUndescribed) =
     Inr \<lparr>ID = ''S1'', CreatedAt = 5, UpdatedAt = 20, WorkingDir = ''/w'',
          LastAction = ''user_message: hello'', FilePaths = [''/r/a.jsonl'']\<rparr>"
    by (simp add: logWithUndescribed_def parse_defs snippet_defs)
  have n: "\<forall>e \<in> set (fileEntries logWithUndescribed). 0 \<le> entryTime e"
    by (simp add: logWithUndescribed_def parse_defs)
  show ?thesis
    using parse_UpdatedAt_latest_of_all_entries[OF p n] p by simp
qed

text \<open>
  Claim C1 as stated fails: in \<open>logWithUndescribed\<close> the latest entry with a non-empty
  description is the user message at instant 10, and the parser reports instant 20, the
  timestamp of the record that has no description.
\<close>

theorem parse_UpdatedAt_counts_undescribed_entry:
  "parseSessionFile ''/r/a.jsonl'' (Some logWithUndescribed) =
     Inr \<lparr>ID = ''S1'', CreatedAt = 5, UpdatedAt = 20, WorkingDir = ''/w'',
          LastAction = ''user_message: hello'', FilePaths = [''/r/a.jsonl'']\<rparr> \<and>
   maxTime (describedTimes logWithUndescribed) = 10"
  by (simp add: logWithUndescribed_def describedTimes_def described_def parse_defs snippet_defs)

text \<open>
  Claim C3 at a failing input. The tree holds two fragments of session \<^verbatim>\<open>S1\<close>. The
  first has the creation time 100. The second has no timestamp, so its \<open>CreatedAt\<close> is
  the zero time, which is before 100: the merge takes it, and the aggregated session has
  the zero \<open>CreatedAt\<close> although one fragment has a non-zero one.
\<close>

theorem aggregate_zero_CreatedAt_overwrites:
  "Load treeDatedUndated =
     Inr ([\<lparr>ID = ''S1'', CreatedAt = 0, UpdatedAt = 100, WorkingDir = ''/w'',
            LastAction = ''session started'',
            FilePaths = [''/r/a.jsonl'', ''/r/b.jsonl'']\<rparr>], [])"
  by (simp add: treeDatedUndated_def fragmentDated_def fragmentUndated_def walkAll_def Ext_def
      parse_defs Snapshot_def mergeSession_def emit_def sortSlice_def sortPaths_def)

text \<open>
  Claim C4. Two fragments of one session with different \<open>UpdatedAt\<close> are merged, the
  session of record holding each of its paths once. If the new fragment is strictly
  later, the merged session has its \<open>UpdatedAt\<close> and \<open>LastAction\<close>, and its
  \<open>WorkingDir\<close> when that is not empty. Otherwise the session of record keeps its
  \<open>UpdatedAt\<close> and \<open>LastAction\<close>, and its \<open>WorkingDir\<close> unless that is empty, in which
  case the fragment's is taken. In both cases the emitted \<open>FilePaths\<close> are sorted
  ascending, without duplicates, and hold exactly the paths of the two fragments.
\<close>

theorem merge_later_fragment_wins:
  assumes "UpdatedAt existing \<noteq> UpdatedAt fragment" and "distinct (FilePaths existing)"
  shows "(After (UpdatedAt fragment) (UpdatedAt existing) \<longrightarrow>
            UpdatedAt (mergeSession existing fragment) = UpdatedAt fragment \<and>
            LastAction (mergeSession existing fragment) = LastAction fragment \<and>
            WorkingDir (mergeSession existing fragment) =
              (if WorkingDir fragment \<noteq> [] then WorkingDir fragment else WorkingDir existing)) \<and>
         (\<not> After (UpdatedAt fragment) (UpdatedAt existing) \<longrightarrow>
            UpdatedAt (mergeSession existing fragment) = UpdatedAt existing \<and>
            LastAction (mergeSession existing fragment) = LastAction existing \<and>
            WorkingDir (mergeSession existing fragment) =
              (if WorkingDir existing = [] then WorkingDir fragment else WorkingDir existing)) \<and>
         sorted (FilePaths (sortPaths (mergeSession existing fragment))) \<and>
         distinct (FilePaths (sortPaths (mergeSession existing fragment))) \<and>
         set (FilePaths (sortPaths (mergeSession existing fragment))) =
           set (FilePaths existing) \<union> set (FilePaths fragment)"
  using assms
  by (auto simp: mergeSession_def sortPaths_def Let_def set_appendMissing distinct_appendMissing)

theorem merge_later_fragment_wins_witness:
  "UpdatedAt recordOfRecord \<noteq> UpdatedAt laterFragment \<and>
   distinct (FilePaths recordOfRecord) \<and>
   After (UpdatedAt laterFragment) (UpdatedAt recordOfRecord) \<and>
   LastAction (mergeSession recordOfRecord laterFragment) = ''assistant_message: hi there'' \<and>
   WorkingDir (mergeSession recordOfRecord laterFragment) = ''/v'' \<and>
   set (FilePaths (sortPaths (mergeSession recordOfRecord laterFragment))) =
     {''/r/a.jsonl'', ''/r/b.jsonl''}"
proof -
  have h1: "UpdatedAt recordOfRecord \<noteq> UpdatedAt laterFragment"
    by (simp add: recordOfRecord_def laterFragment_def)
  have h2: "distinct (FilePaths recordOfRecord)"
    by (simp add: recordOfRecord_def)
  have h3: "After (UpdatedAt laterFragment) (UpdatedAt recordOfRecord)"
    by (simp add: recordOfRecord_def laterFragment_def After_def)
  have "LastAction laterFragment = ''assistant_message: hi there''"
    and "WorkingDir laterFragment = ''/v''"
    and "set (FilePaths recordOfRecord) \<union> set (FilePaths laterFragment) =
         {''/r/a.jsonl'', ''/r/b.jsonl''}"
    by (auto simp: recordOfRecord_def laterFragment_def)
  then show ?thesis
    using merge_later_fragment_wins[OF h1 h2] h1 h2 h3 by simp
qed

lemma applySessionMeta_meta:
  assumes "applySessionMeta st e = Inr st1"
  shows "ID (session st1) = (if metaPayloads [e] = [] then ID (session st) else sm_ID (last (metaPayloads [e])))"
    and "WorkingDir (session st1) = (if metaPayloads [e] = [] then WorkingDir (session st) else sm_CWD (last (metaPayloads [e])))"
    and "CreatedAt (session st1) = (if metaTimes (metaPayloads [e]) = [] then CreatedAt (session st) else last (metaTimes (metaPayloads [e])))"
    and "createdSet st1 = (createdSet st \<or> metaTimes (metaPayloads [e]) \<noteq> [])"
    and "FilePaths (session st1) = FilePaths (session st)"
  using assms
  by (auto simp: applySessionMeta_def Let_def split: if_splits option.splits)

lemma metaPayloads_Cons: "metaPayloads (e # es) = metaPayloads [e] @ metaPayloads es"
  by (auto split: option.splits)

lemma metaTimes_append: "metaTimes (xs @ ys) = metaTimes xs @ metaTimes ys"
  by (induction xs) (auto split: option.splits)

lemma processEntry_meta:
  assumes "processEntry st e = Inr st1"
  shows "ID (session st1) = (if metaPayloads [e] = [] then ID (session st) else sm_ID (last (metaPayloads [e])))"
    and "WorkingDir (session st1) = (if metaPayloads [e] = [] then WorkingDir (session st) else sm_CWD (last (metaPayloads [e])))"
    and "CreatedAt (session st1) = (if metaTimes (metaPayloads [e]) = [] then CreatedAt (session st) else last (metaTimes (metaPayloads [e])))"
    and "createdSet st1 = (createdSet st \<or> metaTimes (metaPayloads [e]) \<noteq> [])"
    and "FilePaths (session st1) = FilePaths (session st)"
proof -
  from assms obtain st2 where a: "applySessionMeta st e = Inr st2" and b: "st1 = advance st2 e (entryTime e)"
    by (auto simp: processEntry_def Let_def split: sum.splits)
  show "ID (session st1) = (if metaPayloads [e] = [] then ID (session st) else sm_ID (last (metaPayloads [e])))"
    and "WorkingDir (session st1) = (if metaPayloads [e] = [] then WorkingDir (session st) else sm_CWD (last (metaPayloads [e])))"
    and "CreatedAt (session st1) = (if metaTimes (metaPayloads [e]) = [] then CreatedAt (session st) else last (metaTimes (metaPayloads [e])))"
    and "createdSet st1 = (createdSet st \<or> metaTimes (metaPayloads [e]) \<noteq> [])"
    and "FilePaths (session st1) = FilePaths (session st)"
    using applySessionMeta_meta[OF a] by (simp_all add: b advance_keeps)
qed

lemma parseLoop_meta:
  "parseLoop st items = Inr st1 \<Longrightarrow>
     ID (session st1) =
       (if metaPayloads (fileEntries items) = [] then ID (session st)
        else sm_ID (last (metaPayloads (fileEntries items)))) \<and>
     WorkingDir (session st1) =
       (if metaPayloads (fileEntries items) = [] then WorkingDir (session st)
        else sm_CWD (last (metaPayloads (fileEntries items)))) \<and>
     CreatedAt (session st1) =
       (if metaTimes (metaPayloads (fileEntries items)) = [] then CreatedAt (session st)
        else last (metaTimes (metaPayloads (fileEntries items)))) \<and>
     createdSet st1 = (createdSet st \<or> metaTimes (metaPayloads (fileEntries items)) \<noteq> []) \<and>
     FilePaths (session st1) = FilePaths (session st)"
proof (induction st items rule: parseLoop.induct)
  case (6 st entry rest)
  from "6.prems"(1) obtain st2
    where p: "processEntry st entry = Inr st2" and l: "parseLoop st2 rest = Inr st1"
    by (auto split: sum.splits)
  note ih = "6.IH"[OF p l]
  note pe = processEntry_meta[OF p]
  have c: "metaPayloads (fileEntries (Line (JsonValue entry) # rest)) = metaPayloads [entry] @ metaPayloads (fileEntries rest)"
    using metaPayloads_Cons[of entry "fileEntries rest"] by simp
  show ?case
    unfolding c metaTimes_append using ih pe by (simp split: if_splits)
qed auto

text \<open>
  Claim C10. A file that parses has at least one \<^verbatim>\<open>session_meta\<close> record; the
  session has the \<^verbatim>\<open>id\<close> and the \<^verbatim>\<open>cwd\<close> of the last one, whatever the earlier
  ones held. \<open>CreatedAt\<close> is the metadata timestamp of the last \<^verbatim>\<open>session_meta\<close> record
  whose metadata timestamp parses; when there is none, or when that timestamp is the zero
  time, \<open>CreatedAt\<close> is \<open>UpdatedAt\<close>.
\<close>

theorem parse_keeps_last_session_meta:
  assumes "parseSessionFile path (Some items) = Inr s"
  shows "metaPayloads (fileEntries items) \<noteq> [] \<and>
         ID s = sm_ID (last (metaPayloads (fileEntries items))) \<and>
         WorkingDir s = sm_CWD (last (metaPayloads (fileEntries items))) \<and>
         CreatedAt s =
           (if metaTimes (metaPayloads (fileEntries items)) = [] then UpdatedAt s
            else if last (metaTimes (metaPayloads (fileEntries items))) = 0 then UpdatedAt s
            else last (metaTimes (metaPayloads (fileEntries items))))"
proof -
  from assms obtain st
    where l: "parseLoop (initialState path) items = Inr st" and f: "finish st = Inr s"
    by (auto simp: parseSessionFile_def split: sum.splits)
  note m = parseLoop_meta[OF l]
  show ?thesis
    using f m by (auto simp: finish_def Let_def initialState_def IsZero_def split: if_splits)
qed

lemma processEntry_ok:
  "(if le_Type e = ''session_meta'' then asSessionMeta (le_Payload e) \<noteq> None else True) \<Longrightarrow>
   \<exists>st2. processEntry st e = Inr st2"
  by (cases "parseTimestamp (sm_Timestamp (the (asSessionMeta (le_Payload e))))")
     (auto simp: processEntry_def applySessionMeta_def Let_def split: if_splits)

lemma parseLoop_readable:
  "readable items \<Longrightarrow> \<exists>st1. parseLoop st items = Inr st1"
proof (induction st items rule: parseLoop.induct)
  case (6 st entry rest)
  from "6.prems" obtain st2 where p: "processEntry st entry = Inr st2"
    using processEntry_ok[of entry st] by auto
  from "6.IH"[OF p] "6.prems" p show ?case by simp
qed auto

lemma parse_missing_id:
  assumes "readable items" and "fileID items = []"
  shows "parseSessionFile path (Some items) = Inl MissingSessionID"
proof -
  from parseLoop_readable[OF assms(1)] obtain st where l: "parseLoop (initialState path) items = Inr st"
    by blast
  have "ID (session st) = []"
    using parseLoop_meta[OF l] assms(2) by (auto simp: fileID_def initialState_def split: if_splits)
  then show ?thesis
    using l by (simp add: parseSessionFile_def finish_def)
qed

lemma walkFn_split: "walkFn (b, e) x = (stepByID b x, e @ itemErrors x)"
  by (cases x) (auto simp: stepByID_def itemErrors_def split: sum.splits option.splits)

lemma foldl_walkFn:
  "foldl walkFn (b, e) items = (foldl stepByID b items, e @ concat (map itemErrors items))"
  by (induction items arbitrary: b e) (simp_all add: walkFn_split)

lemma walkAll_split:
  "walkAll items = (foldl stepByID [] items, concat (map itemErrors items))"
  by (simp add: walkAll_def foldl_walkFn)

lemma failing_file_step:
  assumes "Ext path = ''.jsonl''" and "parseSessionFile path fl = Inl err"
  shows "stepByID b (FileItem path fl) = b"
    and "itemErrors (FileItem path fl) = [ParseErr path err]"
  using assms by (simp_all add: stepByID_def itemErrors_def)

lemma walkAll_failing_file:
  assumes "Ext path = ''.jsonl''" and "parseSessionFile path fl = Inl err"
  shows "walkAll (pre @ FileItem path fl # post) =
           (fst (walkAll (pre @ post)), snd (walkAll pre) @ ParseErr path err # snd (walkAll post))"
  by (simp add: walkAll_split failing_file_step[OF assms])

lemma set_insertBy: "set (insertBy lt x xs) = insert x (set xs)"
  by (induction xs) auto

lemma set_sortSlice: "set (sortSlice lt xs) = set xs"
  by (induction xs) (auto simp: sortSlice_def set_insertBy)

lemma parse_FilePaths:
  assumes "parseSessionFile path fl = Inr s"
  shows "FilePaths s = [path]"
proof -
  from assms obtain items st
    where l: "parseLoop (initialState path) items = Inr st" and f: "finish st = Inr s"
    by (auto simp: parseSessionFile_def split: sum.splits option.splits)
  have "FilePaths (session st) = [path]"
    using parseLoop_meta[OF l] by (simp add: initialState_def)
  then show ?thesis
    using f by (auto simp: finish_def Let_def split: if_splits)
qed

lemma set_updateByID: "set (map snd (updateByID k v b)) \<subseteq> insert v (set (map snd b))"
  by (induction k v b rule: updateByID.induct) auto

lemma map_of_values: "map_of b k = Some e \<Longrightarrow> e \<in> set (map snd b)"
  by (induction b) (auto split: if_splits)

lemma mergeSession_paths:
  "set (FilePaths (mergeSession e n)) = set (FilePaths e) \<union> set (FilePaths n)"
  by (simp add: mergeSession_def Let_def set_appendMissing)

lemma stepByID_cases:
  "stepByID b x = b \<or>
   (\<exists>path fl n. x = FileItem path fl \<and> parseSessionFile path fl = Inr n \<and>
      (stepByID b x = updateByID (ID n) (Snapshot n) b \<or>
       (\<exists>e. map_of b (ID n) = Some e \<and> stepByID b x = updateByID (ID n) (mergeSession e n) b)))"
  by (cases x) (auto simp: stepByID_def split: sum.splits option.splits)

lemma stepByID_paths:
  assumes "\<forall>s \<in> set (map snd b). set (FilePaths s) \<subseteq> P"
    and "s \<in> set (map snd (stepByID b x))"
  shows "set (FilePaths s) \<subseteq> P \<union> set (itemPaths [x])"
proof -
  consider (same) "stepByID b x = b"
    | (new) path fl n where "x = FileItem path fl" "parseSessionFile path fl = Inr n"
        "stepByID b x = updateByID (ID n) (Snapshot n) b"
    | (merge) path fl n e where "x = FileItem path fl" "parseSessionFile path fl = Inr n"
        "map_of b (ID n) = Some e" "stepByID b x = updateByID (ID n) (mergeSession e n) b"
    using stepByID_cases[of b x] by blast
  then show ?thesis
  proof cases
    case same
    then show ?thesis using assms by auto
  next
    case new
    have np: "FilePaths n = [path]" using parse_FilePaths[OF new(2)] .
    have "s = Snapshot n \<or> s \<in> set (map snd b)"
      using assms(2) set_updateByID[of "ID n" "Snapshot n" b] unfolding new(3) by blast
    then show ?thesis
    proof
      assume "s = Snapshot n"
      then show ?thesis using np new(1) by (simp add: Snapshot_def)
    next
      assume "s \<in> set (map snd b)"
      then show ?thesis using assms(1) by blast
    qed
  next
    case merge
    have np: "FilePaths n = [path]" using parse_FilePaths[OF merge(2)] .
    have ep: "set (FilePaths e) \<subseteq> P" using map_of_values[OF merge(3)] assms(1) by blast
    have "s = mergeSession e n \<or> s \<in> set (map snd b)"
      using assms(2) set_updateByID[of "ID n" "mergeSession e n" b] unfolding merge(4) by blast
    then show ?thesis
    proof
      assume "s = mergeSession e n"
      then show ?thesis using np ep merge(1) by (auto simp: mergeSession_paths)
    next
      assume "s \<in> set (map snd b)"
      then show ?thesis using assms(1) by blast
    qed
  qed
qed

lemma itemPaths_append: "itemPaths (xs @ ys) = itemPaths xs @ itemPaths ys"
  by (induction xs rule: itemPaths.induct) auto

lemma foldl_stepByID_paths:
  "\<forall>s \<in> set (map snd b). set (FilePaths s) \<subseteq> P \<Longrightarrow>
   \<forall>s \<in> set (map snd (foldl stepByID b items)). set (FilePaths s) \<subseteq> P \<union> set (itemPaths items)"
proof (induction items arbitrary: b P)
  case Nil
  then show ?case by simp
next
  case (Cons x xs)
  have step: "\<forall>s \<in> set (map snd (stepByID b x)). set (FilePaths s) \<subseteq> P \<union> set (itemPaths [x])"
    using stepByID_paths[OF Cons.prems] by blast
  have "\<forall>s \<in> set (map snd (foldl stepByID (stepByID b x) xs)).
          set (FilePaths s) \<subseteq> (P \<union> set (itemPaths [x])) \<union> set (itemPaths xs)"
    by (rule Cons.IH[OF step])
  moreover have "itemPaths (x # xs) = itemPaths [x] @ itemPaths xs"
    using itemPaths_append[of "[x]" xs] by simp
  ultimately show ?case by (simp add: Un_assoc)
qed

lemma emit_paths:
  assumes "s \<in> set (emit b)"
  shows "\<exists>s0 \<in> set (map snd b). set (FilePaths s) = set (FilePaths s0)"
proof -
  from assms obtain k s0 where "(k, s0) \<in> set b" and "s = sortPaths s0"
    by (auto simp: emit_def set_sortSlice)
  then show ?thesis
    by (force simp: sortPaths_def)
qed

lemma walked_paths:
  assumes "s \<in> set (emit (fst (walkAll items)))"
  shows "set (FilePaths s) \<subseteq> set (itemPaths items)"
proof -
  from assms obtain s0 where "s0 \<in> set (map snd (foldl stepByID [] items))"
    and "set (FilePaths s) = set (FilePaths s0)"
    using emit_paths[of s "foldl stepByID [] items"] by (auto simp: walkAll_split)
  then show ?thesis
    using foldl_stepByID_paths[of "[]" "{}" items] by auto
qed

text \<open>
  Claim C8. A \<^verbatim>\<open>.jsonl\<close> file that reads to its end and yields no session identifier
  makes \<^verbatim>\<open>parseSessionFile\<close> return the missing-identifier error. Wherever the file
  stands in the walk, \<^verbatim>\<open>Load\<close> returns the sessions that it returns without the file,
  built from the files before and after it, and the combined error holds the failure of
  this file between the errors of the files before it and of the files after it. No
  session lists the path of the file, unless the walk visits the path a second time.
\<close>

theorem file_without_id_is_skipped:
  assumes "readable items" and "fileID items = []" and "Ext path = ''.jsonl''"
  shows "parseSessionFile path (Some items) = Inl MissingSessionID \<and>
         Load (Tree (pre @ FileItem path (Some items) # post)) =
           Inr (emit (fst (walkAll (pre @ post))),
                snd (walkAll pre) @ ParseErr path MissingSessionID # snd (walkAll post)) \<and>
         Load (Tree (pre @ post)) =
           Inr (emit (fst (walkAll (pre @ post))), snd (walkAll pre) @ snd (walkAll post)) \<and>
         (path \<notin> set (itemPaths (pre @ post)) \<longrightarrow>
            (\<forall>s \<in> set (emit (fst (walkAll (pre @ post)))). path \<notin> set (FilePaths s)))"
proof -
  have p: "parseSessionFile path (Some items) = Inl MissingSessionID"
    using parse_missing_id[OF assms(1,2)] .
  have w: "walkAll (pre @ FileItem path (Some items) # post) =
           (fst (walkAll (pre @ post)),
            snd (walkAll pre) @ ParseErr path MissingSessionID # snd (walkAll post))"
    using walkAll_failing_file[OF assms(3) p] .
  have l2: "Load (Tree (pre @ post)) =
      Inr (emit (fst (walkAll (pre @ post))), snd (walkAll pre) @ snd (walkAll post))"
    by (simp add: walkAll_split)
  have l1: "Load (Tree (pre @ FileItem path (Some items) # post)) =
      Inr (emit (fst (walkAll (pre @ post))),
           snd (walkAll pre) @ ParseErr path MissingSessionID # snd (walkAll post))"
    using w by simp
  have "path \<notin> set (itemPaths (pre @ post)) \<longrightarrow>
      (\<forall>s \<in> set (emit (fst (walkAll (pre @ post)))). path \<notin> set (FilePaths s))"
    using walked_paths[of _ "pre @ post"] by blast
  then show ?thesis
    using p l1 l2 by simp
qed

theorem parse_keeps_last_session_meta_witness:
  "parseSessionFile ''/r/z.jsonl'' (Some logTwoMetas) =
     Inr \<lparr>ID = ''S2'', CreatedAt = 9, UpdatedAt = 7, WorkingDir = ''/v'',
          LastAction = ''session started'', FilePaths = [''/r/z.jsonl'']\<rparr> \<and>
   map sm_ID (metaPayloads (fileEntries logTwoMetas)) = [''S1'', ''S2''] \<and>
   metaTimes (metaPayloads (fileEntries logTwoMetas)) = [3, 9]"
proof -
  have p: "parseSessionFile ''/r/z.jsonl'' (Some logTwoMetas) =
     Inr \<lparr>ID = ''S2'', CreatedAt = 9, UpdatedAt = 7, WorkingDir = ''/v'',
          LastAction = ''session started'', FilePaths = [''/r/z.jsonl'']\<rparr>"
    by (simp add: logTwoMetas_def parse_defs)
  have m: "map sm_ID (metaPayloads (fileEntries logTwoMetas)) = [''S1'', ''S2'']"
    "metaTimes (metaPayloads (fileEntries logTwoMetas)) = [3, 9]"
    by (simp_all add: logTwoMetas_def parse_defs)
  show ?thesis
    using parse_keeps_last_session_meta[OF p] p m by simp
qed

theorem file_without_id_is_skipped_witness:
  "parseSessionFile ''/r/x.jsonl'' (Some logNoID) = Inl MissingSessionID \<and>
   Load (Tree (walkBefore @ FileItem ''/r/x.jsonl'' (Some logNoID) # walkAfter)) =
     Inr ([\<lparr>ID = ''S1'', CreatedAt = 100, UpdatedAt = 100, WorkingDir = ''/w'',
            LastAction = ''session started'', FilePaths = [''/r/a.jsonl'']\<rparr>,
           \<lparr>ID = ''S2'', CreatedAt = 9, UpdatedAt = 7, WorkingDir = ''/v'',
            LastAction = ''session started'', FilePaths = [''/r/z.jsonl'']\<rparr>],
          [ParseErr ''/r/x.jsonl'' MissingSessionID])"
proof -
  have r: "readable logNoID"
    by (simp add: logNoID_def entryLine_def)
  have i: "fileID logNoID = []"
    by (simp add: logNoID_def fileID_def entryLine_def)
  have e: "Ext ''/r/x.jsonl'' = ''.jsonl''"
    by (simp add: Ext_def)
  have s: "emit (fst (walkAll (walkBefore @ walkAfter))) =
      [\<lparr>ID = ''S1'', CreatedAt = 100, UpdatedAt = 100, WorkingDir = ''/w'',
            LastAction = ''session started'', FilePaths = [''/r/a.jsonl'']\<rparr>,
           \<lparr>ID = ''S2'', CreatedAt = 9, UpdatedAt = 7, WorkingDir = ''/v'',
            LastAction = ''session started'', FilePaths = [''/r/z.jsonl'']\<rparr>]"
    by (simp add: walkBefore_def walkAfter_def fragmentDated_def logTwoMetas_def walkAll_def
        Ext_def parse_defs Snapshot_def emit_def sortSlice_def sortPaths_def)
  have b: "snd (walkAll walkBefore) = []"
    by (simp add: walkBefore_def fragmentDated_def walkAll_def Ext_def parse_defs Snapshot_def)
  have a: "snd (walkAll walkAfter) = []"
    by (simp add: walkAfter_def logTwoMetas_def walkAll_def Ext_def parse_defs Snapshot_def)
  show ?thesis
    using file_without_id_is_skipped[OF r i e, of walkBefore walkAfter] s a b by simp
qed

section \<open>Properties of the snippet rule\<close>







































section \<open>Properties of the session lifecycle\<close>

text \<open>
  The loop of \<^verbatim>\<open>cleanupParentDirectories\<close> is modelled on clean paths, with
  \<open>parent\<close> for \<^verbatim>\<open>filepath.Dir\<close>. The lemmas below justify this: what \<open>cleaned\<close>
  returns is in clean form (\<open>cleanForm_cleaned\<close>), \<open>parent\<close> keeps the clean form
  (\<open>cleanForm_parent\<close>), and on a path in clean form \<^verbatim>\<open>filepath.Dir\<close> of the string
  is the string of \<open>parent\<close> (\<open>Dir_of_clean_path\<close>).
\<close>

lemma splitSep_no_sep: "CHR ''/'' \<notin> set e \<Longrightarrow> splitSep e = [e]"
  by (induction e) auto

lemma splitSep_append: "CHR ''/'' \<notin> set e \<Longrightarrow> splitSep (e @ CHR ''/'' # rest) = e # splitSep rest"
  by (induction e) auto

lemma splitSep_Join:
  "es \<noteq> [] \<Longrightarrow> \<forall>e \<in> set es. CHR ''/'' \<notin> set e \<Longrightarrow> splitSep (Join es ''/'') = es"
proof (induction es "''/''" rule: Join.induct)
  case 1
  then show ?case by simp
next
  case (2 x)
  then show ?case by (simp add: splitSep_no_sep)
next
  case (3 x y ys)
  then show ?case by (simp add: splitSep_append)
qed


lemma Join_snoc: "b \<noteq> [] \<Longrightarrow> Join (b @ [e]) sep = Join b sep @ sep @ e"
  by (induction b sep rule: Join.induct) auto

lemma cleanStep_proper: "properElem e \<Longrightarrow> cleanStep r out e = out @ [e]"
  by (simp add: cleanStep_def properElem_def)

lemma foldl_cleanStep_proper:
  "list_all properElem es \<Longrightarrow> foldl (cleanStep r) out es = out @ es"
  by (induction es arbitrary: out) (simp_all add: cleanStep_proper)

lemma foldl_cleanStep_dots:
  "set out \<subseteq> {''..''} \<Longrightarrow>
   foldl (cleanStep False) out (replicate k ''..'') = out @ replicate k ''..''"
proof (induction k arbitrary: out)
  case 0
  then show ?case by simp
next
  case (Suc k)
  have step: "cleanStep False out ''..'' = out @ [''..'']"
    using Suc.prems by (cases out rule: rev_cases) (auto simp: cleanStep_def)
  have "set (out @ [''..'']) \<subseteq> {''..''}"
    using Suc.prems by simp
  from Suc.IH[OF this] show ?case
    by (simp add: step replicate_app_Cons_same)
qed

lemma cleanForm_split:
  assumes "cleanForm p"
  shows "\<exists>k ps. elems p = replicate k ''..'' @ ps \<and> list_all properElem ps \<and> (rooted p \<longrightarrow> k = 0)"
proof (cases "rooted p")
  case True
  with assms have r: "list_all properElem (elems p)" by (simp add: cleanForm_def)
  have e: "elems p = replicate 0 ''..'' @ elems p" by simp
  show ?thesis
    using e r by (intro exI[of _ 0] exI[of _ "elems p"]) simp
next
  case False
  define dots where "dots = takeWhile (\<lambda>e. e = ''..'') (elems p)"
  define rest where "rest = dropWhile (\<lambda>e. e = ''..'') (elems p)"
  have t: "dots = replicate (length dots) ''..''"
    unfolding dots_def by (rule replicate_length_same[symmetric]) (auto dest: set_takeWhileD)
  have e: "elems p = replicate (length dots) ''..'' @ rest"
    using takeWhile_dropWhile_id[of "\<lambda>e. e = ''..''" "elems p"] t
    unfolding dots_def[symmetric] rest_def[symmetric] by simp
  have r: "list_all properElem rest"
    using assms False by (simp add: cleanForm_def rest_def)
  show ?thesis
    using e r False by (intro exI[of _ "length dots"] exI[of _ rest]) simp
qed

lemma foldl_cleanStep_form:
  assumes "list_all properElem ps" and "r \<Longrightarrow> k = 0"
  shows "foldl (cleanStep r) [] (replicate k ''..'' @ ps) = replicate k ''..'' @ ps"
proof (cases r)
  case True
  then show ?thesis using assms by (simp add: foldl_cleanStep_proper)
next
  case False
  then show ?thesis
    using assms foldl_cleanStep_dots[of "[]" k] by (simp add: foldl_cleanStep_proper)
qed

lemma properElem_no_sep: "properElem e \<Longrightarrow> CHR ''/'' \<notin> set e \<and> e \<noteq> []"
  by (simp add: properElem_def)

lemma dots_no_sep: "CHR ''/'' \<notin> set ''..'' \<and> ''..'' \<noteq> []"
  by simp

lemma form_no_sep:
  assumes "list_all properElem ps" and "e \<in> set (replicate k ''..'' @ ps)"
  shows "CHR ''/'' \<notin> set e \<and> e \<noteq> []"
proof (cases "e \<in> set ps")
  case True
  then have "properElem e" using assms(1) by (simp add: list_all_iff)
  then show ?thesis by (rule properElem_no_sep)
next
  case False
  then have "e = ''..''" using assms(2) by (simp split: if_splits)
  then show ?thesis using dots_no_sep by simp
qed

lemma hd_Join: "es \<noteq> [] \<Longrightarrow> hd es \<noteq> [] \<Longrightarrow> hd (Join es sep) = hd (hd es)"
  by (induction es sep rule: Join.induct) auto

lemma Join_nonempty: "es \<noteq> [] \<Longrightarrow> hd es \<noteq> [] \<Longrightarrow> Join es sep \<noteq> []"
  by (induction es sep rule: Join.induct) auto

lemma foldl_skip_empty_last: "foldl (cleanStep r) out (es @ [[]]) = foldl (cleanStep r) out es"
  by (simp add: cleanStep_def)

lemma cleaned_rooted_string:
  assumes "list_all properElem ps"
  shows "cleaned (CHR ''/'' # Join ps ''/'') = \<lparr>rooted = True, elems = ps\<rparr>"
proof (cases "ps = []")
  case True
  then show ?thesis by (simp add: cleaned_def cleanStep_def)
next
  case False
  have "\<forall>e \<in> set ps. CHR ''/'' \<notin> set e"
    using form_no_sep[OF assms, of _ 0] by simp
  then have "splitSep (Join ps ''/'') = ps"
    using False by (intro splitSep_Join) auto
  then show ?thesis
    using assms by (simp add: cleaned_def cleanStep_def foldl_cleanStep_proper)
qed

lemma cleaned_unrooted_string:
  assumes "list_all properElem ps" and "es = replicate k ''..'' @ ps" and "es \<noteq> []"
  shows "cleaned (Join es ''/'') = \<lparr>rooted = False, elems = es\<rparr>"
proof -
  have ns: "\<forall>e \<in> set es. CHR ''/'' \<notin> set e \<and> e \<noteq> []"
    using form_no_sep[OF assms(1), of _ k] assms(2) by blast
  then have sp: "splitSep (Join es ''/'') = es"
    using assms(3) by (intro splitSep_Join) auto
  have h: "hd es \<noteq> []" "CHR ''/'' \<notin> set (hd es)"
    using ns assms(3) by auto
  then have "hd (Join es ''/'') \<noteq> CHR ''/''"
    using hd_Join[OF assms(3) h(1), of "''/''"] assms(3) by (cases "hd es") auto
  moreover have "foldl (cleanStep False) [] es = es"
    unfolding assms(2) by (rule foldl_cleanStep_form[OF assms(1)]) simp
  ultimately show ?thesis
    by (simp add: cleaned_def sp)
qed

lemma cleaned_render:
  assumes "cleanForm p"
  shows "cleaned (render p) = p"
proof -
  from cleanForm_split[OF assms] obtain k ps where e: "elems p = replicate k ''..'' @ ps"
    and ps: "list_all properElem ps" and r: "rooted p \<longrightarrow> k = 0"
    by (elim exE conjE)
  show ?thesis
  proof (cases "rooted p")
    case True
    then have "elems p = ps" using e r by simp
    then show ?thesis
      using True cleaned_rooted_string[OF ps] by (simp add: render_def)
  next
    case False
    show ?thesis
    proof (cases "elems p = []")
      case True
      have "cleaned ''.'' = \<lparr>rooted = False, elems = []\<rparr>"
        by (simp add: cleaned_def cleanStep_def)
      then show ?thesis using True False by (simp add: render_def)
    next
      case ne: False
      from cleaned_unrooted_string[OF ps e ne] show ?thesis
        using False ne by (simp add: render_def)
    qed
  qed
qed

lemma Dir_dirPrefix: "Dir path = render (cleaned (dirPrefix path))"
  by (simp add: Dir_def Clean_def dirPrefix_def)

lemma dirPrefix_append: "CHR ''/'' \<notin> set e \<Longrightarrow> dirPrefix (s @ CHR ''/'' # e) = s @ ''/''"
proof -
  assume "CHR ''/'' \<notin> set e"
  then have "dropWhile (\<lambda>c. c \<noteq> CHR ''/'') (rev e @ CHR ''/'' # rev s) = CHR ''/'' # rev s"
    by (subst dropWhile_append2) auto
  then show ?thesis by (simp add: dirPrefix_def)
qed

lemma dirPrefix_no_sep: "CHR ''/'' \<notin> set e \<Longrightarrow> dirPrefix e = []"
  by (auto simp: dirPrefix_def)

lemma butlast_replicate_same: "butlast (replicate k x) = replicate (k - 1) x"
  by (induction k) (auto simp: gr0_conv_Suc)

lemma properElem_not_dots: "properElem e \<Longrightarrow> e \<noteq> ''..''"
  by (simp add: properElem_def)

lemma butlast_form:
  assumes "list_all properElem ps"
  shows "\<exists>k' ps'. butlast (replicate k ''..'' @ ps) = replicate k' ''..'' @ ps' \<and> list_all properElem ps' \<and>
           (k = 0 \<longrightarrow> k' = 0)"
proof (cases "ps = []")
  case True
  have "butlast (replicate k ''..'') = replicate (k - 1) ''..''"
    by (rule butlast_replicate_same)
  then show ?thesis
    using True by (intro exI[of _ "k - 1"] exI[of _ "[]"]) simp
next
  case False
  have "list_all properElem (butlast ps)"
    using assms by (auto simp: list_all_iff dest: in_set_butlastD)
  then show ?thesis
    using False by (intro exI[of _ k] exI[of _ "butlast ps"]) (simp add: butlast_append)
qed

lemma form_cleanForm:
  assumes "elems p = replicate k ''..'' @ ps" and "list_all properElem ps" and "rooted p \<longrightarrow> k = 0"
  shows "cleanForm p"
proof (cases "rooted p")
  case True
  then show ?thesis using assms by (simp add: cleanForm_def)
next
  case False
  have "dropWhile (\<lambda>e. e = ''..'') ps = ps"
  proof (cases ps)
    case Nil
    then show ?thesis by simp
  next
    case (Cons a as)
    then have "a \<noteq> ''..''" using assms(2) properElem_not_dots[of a] by simp
    then show ?thesis using Cons by simp
  qed
  then have "dropWhile (\<lambda>e. e = ''..'') (replicate k ''..'' @ ps) = ps"
    by (induction k) simp_all
  then show ?thesis
    using False assms by (simp add: cleanForm_def)
qed

lemma Join_sep_snoc: "b \<noteq> [] \<Longrightarrow> Join b ''/'' @ ''/'' = Join (b @ [[]]) ''/''"
  using Join_snoc[of b "[]" "''/''"] by simp

lemma splitSep_trailing:
  assumes "b \<noteq> []" and "\<And>e. e \<in> set b \<Longrightarrow> CHR ''/'' \<notin> set e"
  shows "splitSep (Join b ''/'' @ ''/'') = b @ [[]]"
proof -
  have "\<forall>e \<in> set (b @ [[]]). CHR ''/'' \<notin> set e"
    using assms(2) by auto
  then have "splitSep (Join (b @ [[]]) ''/'') = b @ [[]]"
    by (intro splitSep_Join) auto
  then show ?thesis
    by (simp add: Join_sep_snoc[OF assms(1)])
qed

lemma cleaned_dirPrefix:
  assumes "cleanForm p" and "elems p \<noteq> []"
  shows "cleaned (dirPrefix (render p)) = parent p"
proof -
  from cleanForm_split[OF assms(1)] obtain k ps where e: "elems p = replicate k ''..'' @ ps"
    and ps: "list_all properElem ps" and r: "rooted p \<longrightarrow> k = 0"
    by (elim exE conjE)
  from assms(2) obtain b l where bl: "elems p = b @ [l]"
    by (cases "elems p" rule: rev_cases) auto
  have ns: "\<And>x. x \<in> set (elems p) \<Longrightarrow> CHR ''/'' \<notin> set x \<and> x \<noteq> []"
    using form_no_sep[OF ps, of _ k] e by simp
  have nl: "CHR ''/'' \<notin> set l"
    using ns[of l] bl by simp
  have nb: "\<And>x. x \<in> set b \<Longrightarrow> CHR ''/'' \<notin> set x \<and> x \<noteq> []"
    using ns bl by simp
  from butlast_form[OF ps, of k] obtain k' ps'
    where b: "b = replicate k' ''..'' @ ps'" and ps': "list_all properElem ps'"
      and k': "k = 0 \<longrightarrow> k' = 0"
    using e bl by (metis butlast_snoc)
  have fb: "foldl (cleanStep (rooted p)) [] b = b"
    unfolding b by (rule foldl_cleanStep_form[OF ps']) (use r k' in simp)
  have par: "parent p = \<lparr>rooted = rooted p, elems = b\<rparr>"
    by (simp add: parent_def bl)
  show ?thesis
  proof (cases "b = []")
    case True
    show ?thesis
    proof (cases "rooted p")
      case rt: True
      have "render p = [] @ CHR ''/'' # l"
        using rt bl True by (simp add: render_def)
      then have "dirPrefix (render p) = ''/''"
        using dirPrefix_append[OF nl, of "[]"] by simp
      then show ?thesis
        using rt True par by (simp add: cleaned_def cleanStep_def)
    next
      case rf: False
      have "render p = l"
        using rf bl True by (simp add: render_def)
      then have "dirPrefix (render p) = []"
        using dirPrefix_no_sep[OF nl] by simp
      then show ?thesis
        using rf True par by (simp add: cleaned_def cleanStep_def)
    qed
  next
    case False
    have j: "Join (elems p) ''/'' = Join b ''/'' @ CHR ''/'' # l"
      using Join_snoc[OF False, of l "''/''"] bl by simp
    have sp: "splitSep (Join b ''/'' @ ''/'') = b @ [[]]"
      using splitSep_trailing[OF False] nb by blast
    show ?thesis
    proof (cases "rooted p")
      case rt: True
      have "render p = (CHR ''/'' # Join b ''/'') @ CHR ''/'' # l"
        using rt j by (simp add: render_def)
      then have "dirPrefix (render p) = CHR ''/'' # Join b ''/'' @ ''/''"
        using dirPrefix_append[OF nl, of "CHR ''/'' # Join b ''/''"] by simp
      then show ?thesis
        using rt par fb sp by (simp add: cleaned_def foldl_skip_empty_last cleanStep_def)
    next
      case rf: False
      have "render p = Join b ''/'' @ CHR ''/'' # l"
        using rf j bl by (simp add: render_def)
      then have d: "dirPrefix (render p) = Join b ''/'' @ ''/''"
        using dirPrefix_append[OF nl, of "Join b ''/''"] by simp
      have hb: "hd b \<noteq> []" "CHR ''/'' \<notin> set (hd b)"
        using nb[of "hd b"] False by simp_all
      have "hd (Join b ''/'') \<noteq> CHR ''/''"
        using hd_Join[OF False hb(1), of "''/''"] hb by (cases "hd b") auto
      moreover have "Join b ''/'' \<noteq> []"
        using Join_nonempty[OF False hb(1)] .
      ultimately have "hd (Join b ''/'' @ ''/'') \<noteq> CHR ''/''"
        by simp
      then show ?thesis
        using rf par fb sp d by (simp add: cleaned_def foldl_skip_empty_last cleanStep_def)
    qed
  qed
qed

lemma cleanForm_parent: "cleanForm p \<Longrightarrow> cleanForm (parent p)"
proof -
  assume c: "cleanForm p"
  from cleanForm_split[OF c] obtain k ps where e: "elems p = replicate k ''..'' @ ps"
    and ps: "list_all properElem ps" and r: "rooted p \<longrightarrow> k = 0"
    by (elim exE conjE)
  from butlast_form[OF ps, of k] obtain k' ps'
    where b: "butlast (replicate k ''..'' @ ps) = replicate k' ''..'' @ ps'"
      and ps': "list_all properElem ps'" and k': "k = 0 \<longrightarrow> k' = 0"
    by (elim exE conjE)
  show ?thesis
    by (rule form_cleanForm[of _ k' ps']) (use e b ps' r k' in \<open>simp_all add: parent_def\<close>)
qed

lemma Dir_of_clean_path:
  assumes "cleanForm p" and "elems p \<noteq> []"
  shows "Dir (render p) = render (parent p)" and "cleaned (Dir (render p)) = parent p"
proof -
  show d: "Dir (render p) = render (parent p)"
    by (simp add: Dir_dirPrefix cleaned_dirPrefix[OF assms])
  show "cleaned (Dir (render p)) = parent p"
    unfolding d by (rule cleaned_render[OF cleanForm_parent[OF assms(1)]])
qed

lemma splitSep_elems: "e \<in> set (splitSep s) \<Longrightarrow> CHR ''/'' \<notin> set e"
proof (induction s arbitrary: e)
  case Nil
  then show ?case by simp
next
  case (Cons c cs)
  then show ?case
    by (cases "splitSep cs") (auto split: if_splits)
qed

lemma formed_step:
  assumes "formed r out" and "CHR ''/'' \<notin> set e"
  shows "formed r (cleanStep r out e)"
proof -
  from assms(1) obtain k ps where o: "out = replicate k ''..'' @ ps"
    and ps: "list_all properElem ps" and r: "r \<longrightarrow> k = 0"
    unfolding formed_def by (elim exE conjE)
  consider (skip) "e = [] \<or> e = ''.''" | (up) "e = ''..''" | (name) "properElem e"
    using assms(2) unfolding properElem_def by fastforce
  then show ?thesis
  proof cases
    case skip
    then have "cleanStep r out e = out" unfolding cleanStep_def by simp
    then show ?thesis using assms(1) by simp
  next
    case name
    then have "cleanStep r out e = replicate k ''..'' @ (ps @ [e])"
      by (simp add: cleanStep_proper o)
    moreover have "list_all properElem (ps @ [e])"
      using ps name by simp
    ultimately show ?thesis
      unfolding formed_def using r by (intro exI[of _ k] exI[of _ "ps @ [e]"]) simp
  next
    case up
    show ?thesis
    proof (cases "ps = []")
      case True
      have l: "out = [] \<or> last out = ''..''"
        using o True by (cases k) simp_all
      have c: "cleanStep r out e = (if r then out else out @ [''..''])"
        using l up unfolding cleanStep_def by auto
      show ?thesis
      proof (cases r)
        case True
        then show ?thesis using c assms(1) by simp
      next
        case False
        have "out @ [''..''] = replicate (Suc k) ''..'' @ []"
          using o True by (simp add: replicate_append_same)
        then show ?thesis
          unfolding formed_def using c False
          by (intro exI[of _ "Suc k"] exI[of _ "[]"]) simp
      qed
    next
      case False
      have lp: "properElem (last ps)"
        using ps False by (simp add: list_all_iff)
      have l: "out \<noteq> []" "last out \<noteq> ''..''"
        using o False properElem_not_dots[OF lp] by simp_all
      have c: "cleanStep r out e = butlast out"
        using l up unfolding cleanStep_def by simp
      have "butlast out = replicate k ''..'' @ butlast ps"
        using o False by (simp add: butlast_append)
      moreover have "list_all properElem (butlast ps)"
        using ps by (auto simp: list_all_iff dest: in_set_butlastD)
      ultimately show ?thesis
        unfolding formed_def c using r
        by (intro exI[of _ k] exI[of _ "butlast ps"]) simp
    qed
  qed
qed

lemma formed_foldl:
  "formed r out \<Longrightarrow> (\<And>e. e \<in> set es \<Longrightarrow> CHR ''/'' \<notin> set e) \<Longrightarrow>
   formed r (foldl (cleanStep r) out es)"
  by (induction es arbitrary: out) (simp_all add: formed_step)

lemma cleanForm_cleaned: "cleanForm (cleaned s)"
proof -
  define r where "r = (s \<noteq> [] \<and> hd s = CHR ''/'')"
  have "formed r []"
    unfolding formed_def by (intro exI[of _ 0] exI[of _ "[]"]) simp
  then have "formed r (foldl (cleanStep r) [] (splitSep s))"
    by (rule formed_foldl) (rule splitSep_elems)
  then obtain k ps where "foldl (cleanStep r) [] (splitSep s) = replicate k ''..'' @ ps"
    and "list_all properElem ps" and "r \<longrightarrow> k = 0"
    unfolding formed_def by (elim exE conjE)
  then show ?thesis
    by (intro form_cleanForm[of _ k ps]) (simp_all add: cleaned_def r_def)
qed

text \<open>
  Claim C2 at a failing input. The root \<^verbatim>\<open>/r\<close> holds only the directory
  \<^verbatim>\<open>/r/sub\<close> with the one file of the session. \<^verbatim>\<open>DeleteFiles\<close> removes the file and
  the directory, and then the root itself: the loop tests \<^verbatim>\<open>dir == stop\<close> only after
  \<^verbatim>\<open>os.Remove(dir)\<close> has succeeded.
\<close>

theorem delete_removes_empty_root:
  "DeleteFiles soleSession ''/r'' soleSubdirTree =
     (\<lparr>files = {}, dirs = {''/''}, denied = {}\<rparr>, [])"
  by code_simp

text \<open>
  The test \<^verbatim>\<open>strings.HasPrefix(rel, "..")\<close> looks at the string: a directory under the
  root whose name starts with two dots is taken to lie outside the root and is left in
  place.
\<close>

lemma delete_keeps_dotted_subdirectory:
  "DeleteFiles (soleSession\<lparr>FilePaths := [''/r/..old/a.jsonl'']\<rparr>) ''/r'' dottedSubdirTree =
     (\<lparr>files = {''/r/keep.jsonl''}, dirs = {''/'', ''/r'', ''/r/..old''}, denied = {}\<rparr>, [])"
  by code_simp

section \<open>Properties of the selection model\<close>

lemma rankFindFrom_bound:
  "r \<in> set (rankFindFrom f s i ts) \<Longrightarrow> OriginalIndex r < i + length ts"
  by (induction ts arbitrary: i) (fastforce split: option.splits)+

lemma applyFilter_inBounds: "inBounds (applyFilter L m)"
  by (auto simp: applyFilter_def inBounds_def Let_def)

lemma applyFilter_indicesValid: "indicesValid (applyFilter L m)"
proof -
  have "OriginalIndex r < length (entries m)"
    if "r \<in> set (RankFindFold L q (map searchKey (entries m)))" for r q
    using rankFindFrom_bound[of r "rankMatchFold L" q 0 "map searchKey (entries m)"] that
    by (simp add: RankFindFold_def)
  then show ?thesis
    by (auto simp: applyFilter_def indicesValid_def Let_def list_all_iff set_sortSlice)
qed

lemma applyFilter_entries: "entries (applyFilter L m) = entries m"
  by (simp add: applyFilter_def Let_def)

lemma selectionChanged_inBounds: "inBounds (selectionChanged row0 m)"
  by (auto simp: selectionChanged_def inBounds_def Let_def)

lemma selectionChanged_keeps:
  "filtered (selectionChanged row0 m) = filtered m"
  "entries (selectionChanged row0 m) = entries m"
  "query (selectionChanged row0 m) = query m"
  "status (selectionChanged row0 m) = status m"
  by (simp_all add: selectionChanged_def Let_def)

lemma selectionChanged_indicesValid: "indicesValid (selectionChanged row0 m) = indicesValid m"
  by (simp add: indicesValid_def selectionChanged_keeps)

lemma selectionChanged_same:
  "inBounds m \<Longrightarrow> selectionChanged (selected m + 1) m = m"
  by (auto simp: selectionChanged_def inBounds_def Let_def split: if_splits)

lemma selectionChanged_zero:
  "inBounds m \<Longrightarrow> filtered m = [] \<Longrightarrow> selectionChanged 0 m = m"
  by (auto simp: selectionChanged_def inBounds_def)

lemma refreshTable_fixed:
  "inBounds m \<Longrightarrow> indicesValid m \<Longrightarrow> refreshTable m = Some m"
  using selectionChanged_same[of m] selectionChanged_zero[of m]
  by (auto simp: refreshTable_def indicesValid_def inBounds_def Let_def)

lemma refreshed_fixed:
  "inBounds m \<Longrightarrow> indicesValid m \<Longrightarrow> refreshed (fs, m) = Some (fs, m)"
  by (simp add: refreshed_def refreshTable_fixed)

lemma refreshed_applyFilter: "refreshed (fs, applyFilter L m) = Some (fs, applyFilter L m)"
  by (rule refreshed_fixed[OF applyFilter_inBounds applyFilter_indicesValid])

lemma moveSelectionBy_inBounds: "inBounds m \<Longrightarrow> inBounds (moveSelectionBy delta m)"
  by (auto simp: moveSelectionBy_def Let_def selectionChanged_inBounds)

lemma moveSelectionBy_indicesValid: "indicesValid (moveSelectionBy delta m) = indicesValid m"
  by (simp add: moveSelectionBy_def Let_def indicesValid_def selectionChanged_keeps)

lemma setStatus_keeps:
  "inBounds (setStatus t m) = inBounds m" "indicesValid (setStatus t m) = indicesValid m"
  by (simp_all add: setStatus_def inBounds_def indicesValid_def)

lemma nth_filtered_valid:
  "inBounds m \<Longrightarrow> indicesValid m \<Longrightarrow> filtered m \<noteq> [] \<Longrightarrow>
     \<not> (selected m < 0 \<or> selected m \<ge> int (length (filtered m))) \<and>
     filtered m ! nat (selected m) < length (entries m)"
  by (auto simp: inBounds_def indicesValid_def list_all_length)

lemma deleteSelected_cases:
  assumes "inBounds m" and "indicesValid m"
  shows "deleteSelected L (fs, m) =
     (if filtered m = [] then Some (fs, setStatus ''Nothing to delete'' m)
      else
        (let idx = filtered m ! nat (selected m);
             sess = row_session (entries m ! idx);
             res = DeleteFiles sess (sessionsRoot m) fs
         in if snd res \<noteq> [] then
              Some (fst res, setStatus (''Delete failed: '' @ combinedText (snd res)) m)
            else
              Some (fst res,
                applyFilter L (setStatus (''Session '' @ ID sess @ '' deleted'')
                  (m\<lparr>entries := take idx (entries m) @ drop (Suc idx) (entries m)\<rparr>)))))"
proof (cases "filtered m = []")
  case True
  then show ?thesis by (simp add: deleteSelected_def)
next
  case False
  from nth_filtered_valid[OF assms False] False show ?thesis
    by (simp add: deleteSelected_def Let_def split: prod.splits)
qed

lemma deleteSelected_ok:
  assumes "inBounds m" and "indicesValid m"
  shows "\<exists>fs1 m1. deleteSelected L (fs, m) = Some (fs1, m1) \<and> inBounds m1 \<and> indicesValid m1"
  unfolding deleteSelected_cases[OF assms]
  using assms
  by (auto simp: Let_def setStatus_keeps applyFilter_inBounds applyFilter_indicesValid)

lemma stop_keeps:
  "inBounds (m\<lparr>resumeID := a, stopped := b\<rparr>) = inBounds m"
  "indicesValid (m\<lparr>resumeID := a, stopped := b\<rparr>) = indicesValid m"
  by (simp_all add: inBounds_def indicesValid_def)

lemma handleDelete_cases:
  assumes "inBounds m" and "indicesValid m"
  shows "handleEvent L KeyDelete (fs, m) =
     (if filtered m = [] then Some (fs, setStatus ''Nothing to delete'' m)
      else
        (let idx = filtered m ! nat (selected m);
             sess = row_session (entries m ! idx);
             res = DeleteFiles sess (sessionsRoot m) fs
         in if snd res \<noteq> [] then
              Some (fst res, setStatus (''Delete failed: '' @ combinedText (snd res)) m)
            else
              Some (fst res,
                applyFilter L (setStatus (''Session '' @ ID sess @ '' deleted'')
                  (m\<lparr>entries := take idx (entries m) @ drop (Suc idx) (entries m)\<rparr>)))))"
proof -
  have keep: "refreshed (fs1, setStatus t m) = Some (fs1, setStatus t m)" for fs1 t
    using assms by (intro refreshed_fixed) (simp_all add: setStatus_keeps)
  show ?thesis
    unfolding handleEvent.simps deleteSelected_cases[OF assms]
    by (simp add: Let_def keep refreshed_applyFilter)
qed

lemma handleEvent_ok:
  assumes "inBounds m" and "indicesValid m"
  shows "\<exists>fs1 m1. handleEvent L k (fs, m) = Some (fs1, m1) \<and> inBounds m1 \<and> indicesValid m1"
proof (cases k)
  case (KeyRune r)
  then show ?thesis
    using assms by (simp add: refreshed_applyFilter applyFilter_inBounds applyFilter_indicesValid)
next
  case KeyBackspace
  then show ?thesis
    using assms by (simp add: refreshed_applyFilter applyFilter_inBounds applyFilter_indicesValid)
next
  case KeyEsc
  then show ?thesis
    using assms
    by (simp add: refreshed_applyFilter applyFilter_inBounds applyFilter_indicesValid stop_keeps)
next
  case KeyEnter
  show ?thesis
  proof (cases "filtered m = []")
    case True
    then show ?thesis using assms KeyEnter by simp
  next
    case False
    from nth_filtered_valid[OF assms False] False assms show ?thesis
      by (simp add: KeyEnter Let_def stop_keeps)
  qed
next
  case KeyDelete
  from deleteSelected_ok[OF assms, of L fs] obtain fs1 m1
    where d: "deleteSelected L (fs, m) = Some (fs1, m1)" and i: "inBounds m1" "indicesValid m1"
    by blast
  show ?thesis
    using d i KeyDelete by (simp add: refreshed_fixed)
next
  case KeyPgDn
  then show ?thesis
    using assms by (simp add: moveSelectionBy_inBounds moveSelectionBy_indicesValid)
next
  case KeyPgUp
  then show ?thesis
    using assms by (simp add: moveSelectionBy_inBounds moveSelectionBy_indicesValid)
next
  case KeyCtrlC
  then show ?thesis
    using assms by (simp add: stop_keeps)
next
  case KeyOther
  then show ?thesis
    using assms by simp
qed

lemma drawn_keeps: "inBounds (drawn h m) = inBounds m" "indicesValid (drawn h m) = indicesValid m"
  by (simp_all add: drawn_def Let_def inBounds_def indicesValid_def)

lemma step_ok:
  assumes "inBounds m" and "indicesValid m"
  shows "\<exists>fs1 m1. step L i (fs, m) = Some (fs1, m1) \<and> inBounds m1 \<and> indicesValid m1"
proof (cases i)
  case (Key k)
  then show ?thesis using handleEvent_ok[OF assms, of L k fs] by simp
next
  case (TableSelection row0)
  then show ?thesis
    using assms by (simp add: selectionChanged_inBounds selectionChanged_indicesValid)
next
  case (TableDraw h)
  then show ?thesis using assms by (simp add: drawn_keeps)
qed

lemma steps_ok:
  "inBounds m \<Longrightarrow> indicesValid m \<Longrightarrow>
   \<exists>fs1 m1. steps L is (fs, m) = Some (fs1, m1) \<and> inBounds m1 \<and> indicesValid m1"
proof (induction "is" arbitrary: fs m)
  case Nil
  then show ?case by simp
next
  case (Cons i "is")
  from step_ok[OF Cons.prems, of L i fs] obtain fs1 m1
    where s: "step L i (fs, m) = Some (fs1, m1)" and c: "inBounds m1" "indicesValid m1"
    by blast
  from Cons.IH[OF c, of fs1] show ?case
    using s by simp
qed

lemma started_ok:
  "\<exists>m0. started L items root st0 = Some m0 \<and> inBounds m0 \<and> indicesValid m0"
  by (simp add: started_def refreshTable_fixed[OF applyFilter_inBounds applyFilter_indicesValid]
      setStatus_keeps applyFilter_inBounds applyFilter_indicesValid)

text \<open>
  Claim C5. In a model whose selection is in bounds and whose filtered indices are valid,
  each mutation returns (no index is out of range) and leaves a model with the same two
  properties: appending a character, backspace, clear, a move by any delta, delete, and
  so every sequence of keys, selection changes and redraws. The model that \<^verbatim>\<open>run\<close>
  starts with has the two properties, so the selection is in bounds after every sequence
  of inputs from the start.
\<close>

theorem selection_stays_in_bounds:
  assumes "inBounds m" and "indicesValid m"
  shows "(\<exists>m1. handleEvent L (KeyRune r) (fs, m) = Some (fs, m1) \<and> inBounds m1 \<and> indicesValid m1) \<and>
         (\<exists>m1. handleEvent L KeyBackspace (fs, m) = Some (fs, m1) \<and> inBounds m1 \<and> indicesValid m1) \<and>
         (\<exists>m1. handleEvent L KeyEsc (fs, m) = Some (fs, m1) \<and> inBounds m1 \<and> indicesValid m1) \<and>
         inBounds (moveSelectionBy delta m) \<and> indicesValid (moveSelectionBy delta m) \<and>
         (\<exists>fs1 m1. handleEvent L KeyDelete (fs, m) = Some (fs1, m1) \<and> inBounds m1 \<and> indicesValid m1) \<and>
         (\<exists>fs1 m1. steps L inputs (fs, m) = Some (fs1, m1) \<and> inBounds m1 \<and> indicesValid m1) \<and>
         (\<exists>m0. started L items root initialStatus = Some m0 \<and> inBounds m0 \<and>
            (\<exists>fs1 m1. steps L inputs (fs, m0) = Some (fs1, m1) \<and> inBounds m1))"
proof -
  have "\<exists>m0. started L items root initialStatus = Some m0 \<and> inBounds m0 \<and>
            (\<exists>fs1 m1. steps L inputs (fs, m0) = Some (fs1, m1) \<and> inBounds m1)"
  proof -
    from started_ok[of L items root initialStatus] obtain m0
      where s: "started L items root initialStatus = Some m0"
        and c: "inBounds m0" "indicesValid m0"
      by blast
    from steps_ok[OF c, of L inputs fs] s c(1) show ?thesis
      by blast
  qed
  moreover
  have "\<exists>m1. handleEvent L (KeyRune r) (fs, m) = Some (fs, m1) \<and> inBounds m1 \<and> indicesValid m1"
    using assms by (simp add: refreshed_applyFilter applyFilter_inBounds applyFilter_indicesValid)
  moreover
  have "\<exists>m1. handleEvent L KeyBackspace (fs, m) = Some (fs, m1) \<and> inBounds m1 \<and> indicesValid m1"
    using assms by (simp add: refreshed_applyFilter applyFilter_inBounds applyFilter_indicesValid)
  moreover
  have "\<exists>m1. handleEvent L KeyEsc (fs, m) = Some (fs, m1) \<and> inBounds m1 \<and> indicesValid m1"
    using assms
    by (simp add: refreshed_applyFilter applyFilter_inBounds applyFilter_indicesValid stop_keeps)
  moreover
  have "inBounds (moveSelectionBy delta m) \<and> indicesValid (moveSelectionBy delta m)"
    using assms by (simp add: moveSelectionBy_inBounds moveSelectionBy_indicesValid)
  ultimately show ?thesis
    using handleEvent_ok[OF assms, of L KeyDelete fs] steps_ok[OF assms, of L inputs fs]
    by blast
qed

text \<open>
  Claim C9. In a model whose selection is in bounds and whose filtered indices are valid,
  the delete key does the following. With nothing filtered, only the status changes, to
  \<^verbatim>\<open>Nothing to delete\<close>, and the file system is left alone. Otherwise \<^verbatim>\<open>DeleteFiles\<close>
  runs on the selected session; when it returns an error, only the status changes, to the
  error; when it returns none, the model is \<^verbatim>\<open>applyFilter\<close> of the model without the
  row of that session, whose rows are the old ones without that row.
\<close>

theorem delete_reports_and_removes:
  assumes "inBounds m" and "indicesValid m"
  shows "(filtered m = [] \<longrightarrow>
            handleEvent L KeyDelete (fs, m) = Some (fs, m\<lparr>status := ''Nothing to delete''\<rparr>)) \<and>
         (filtered m \<noteq> [] \<longrightarrow>
            (let idx = filtered m ! nat (selected m);
                 sess = row_session (entries m ! idx);
                 res = DeleteFiles sess (sessionsRoot m) fs
             in (snd res \<noteq> [] \<longrightarrow>
                   handleEvent L KeyDelete (fs, m) =
                     Some (fst res, m\<lparr>status := ''Delete failed: '' @ combinedText (snd res)\<rparr>)) \<and>
                (snd res = [] \<longrightarrow>
                   handleEvent L KeyDelete (fs, m) =
                     Some (fst res,
                       applyFilter L
                         (m\<lparr>entries := take idx (entries m) @ drop (Suc idx) (entries m),
                            status := ''Session '' @ ID sess @ '' deleted''\<rparr>)) \<and>
                   entries (applyFilter L
                         (m\<lparr>entries := take idx (entries m) @ drop (Suc idx) (entries m),
                            status := ''Session '' @ ID sess @ '' deleted''\<rparr>)) =
                     take idx (entries m) @ drop (Suc idx) (entries m))))"
  unfolding handleDelete_cases[OF assms]
  by (simp add: Let_def setStatus_def applyFilter_entries)

lemma rankLess_sortKey: "rankLess rows a b \<longleftrightarrow> sortKey rows a < sortKey rows b"
  by (auto simp: rankLess_def sortKey_def After_def Let_def less_prod_def)

lemma insertBy_insort: "insertBy (rankLess rows) x ys = insort_key (sortKey rows) x ys"
  by (induction ys) (auto simp: rankLess_sortKey)

lemma sortSlice_sort_key: "sortSlice (rankLess rows) xs = sort_key (sortKey rows) xs"
  by (induction xs) (simp_all add: sortSlice_def insertBy_insort sort_key_def)

lemma rankFindFrom_indices:
  "map OriginalIndex (rankFindFrom f s i ts) =
     filter (\<lambda>j. f s (ts ! (j - i)) \<noteq> None) [i..<i + length ts]"
proof (induction ts arbitrary: i)
  case Nil
  then show ?case by simp
next
  case (Cons t ts)
  have nth: "(t # ts) ! (j - i) = ts ! (j - Suc i)" if "j \<in> set [Suc i..<Suc i + length ts]" for j
  proof -
    from that have "j - i = Suc (j - Suc i)" by auto
    then show ?thesis by simp
  qed
  have r: "map OriginalIndex (rankFindFrom f s (Suc i) ts) =
        filter (\<lambda>j. f s ((t # ts) ! (j - i)) \<noteq> None) [Suc i..<Suc i + length ts]"
    unfolding Cons.IH[of "Suc i"] by (rule filter_cong[OF refl]) (simp only: nth)
  have u: "[i..<i + length (t # ts)] = i # [Suc i..<Suc i + length ts]"
    by (simp add: upt_rec)
  show ?case
    unfolding u by (cases "f s t") (simp_all add: r)
qed

lemma rankFindFrom_distance:
  "r \<in> set (rankFindFrom f s i ts) \<Longrightarrow>
     i \<le> OriginalIndex r \<and> OriginalIndex r < i + length ts \<and>
     f s (ts ! (OriginalIndex r - i)) = Some (Distance r)"
proof (induction ts arbitrary: i)
  case Nil
  then show ?case by simp
next
  case (Cons t ts)
  show ?case
  proof (cases "r \<in> set (rankFindFrom f s (Suc i) ts)")
    case True
    from Cons.IH[OF True] show ?thesis by (auto simp: Suc_diff_le)
  next
    case False
    with Cons.prems show ?thesis by (auto split: option.splits)
  qed
qed


lemma applyFilter_filtered:
  "filtered (applyFilter L m) =
     (if TrimSpace (queryText (query m)) = [] then [0..<length (entries m)]
      else map OriginalIndex (sort_key (sortKey (entries m))
             (RankFindFold L (TrimSpace (queryText (query m))) (map searchKey (entries m)))))"
  by (auto simp: applyFilter_def Let_def sortSlice_sort_key RankFindFold_def)

lemma RankFindFold_indices:
  "map OriginalIndex (RankFindFold L q (map searchKey rows)) =
     filter (\<lambda>j. matchDistance L q rows j \<noteq> None) [0..<length rows]"
proof -
  have "filter (\<lambda>j. rankMatchFold L q (map searchKey rows ! (j - 0)) \<noteq> None) [0..<length rows] =
        filter (\<lambda>j. matchDistance L q rows j \<noteq> None) [0..<length rows]"
    by (rule filter_cong[OF refl]) (simp add: matchDistance_def)
  then show ?thesis
    using rankFindFrom_indices[of "rankMatchFold L" q 0 "map searchKey rows"]
    by (simp add: RankFindFold_def)
qed

lemma RankFindFold_key:
  assumes "r \<in> set (RankFindFold L q (map searchKey rows))"
  shows "rankKey L q rows (OriginalIndex r) = sortKey rows r"
proof -
  note x = rankFindFrom_distance[OF assms[unfolded RankFindFold_def]]
  have lt: "OriginalIndex r < length rows"
    using x by simp
  have "matchDistance L q rows (OriginalIndex r) = Some (Distance r)"
    using x by (auto simp: matchDistance_def)
  then show ?thesis
    by (simp add: rankKey_def sortKey_def)
qed

lemma rankKey_inj:
  assumes "distinct (map (\<lambda>r. ID (row_session r)) rows)"
  shows "inj_on (rankKey L q rows) {i. i < length rows}"
proof (rule inj_onI)
  fix i j
  assume i: "i \<in> {i. i < length rows}" and j: "j \<in> {i. i < length rows}"
    and e: "rankKey L q rows i = rankKey L q rows j"
  from assms have d: "distinct rows" and inj: "inj_on (\<lambda>r. ID (row_session r)) (set rows)"
    by (auto simp: distinct_map)
  from e have "ID (row_session (rows ! i)) = ID (row_session (rows ! j))"
    by (simp add: rankKey_def)
  then have "rows ! i = rows ! j"
    using inj i j by (auto dest: inj_onD)
  then show "i = j"
    using d i j by (simp add: nth_eq_iff_index_eq)
qed

text \<open>
  Claim C6. With a query that is empty after trimming, \<^verbatim>\<open>applyFilter\<close> lists all
  indices in their order. Otherwise it lists, each once, exactly the indices of the rows
  whose search key the matcher accepts, sorted by ascending distance, then descending
  \<open>UpdatedAt\<close>, then ascending \<open>ID\<close>. When the rows have distinct IDs, as the
  aggregator delivers them, this is the only list of these indices in that order, so the
  result does not depend on how \<^verbatim>\<open>sort.Slice\<close> sorts.
\<close>

theorem rank_order_is_determined:
  "(TrimSpace (queryText (query m)) = [] \<longrightarrow>
      filtered (applyFilter L m) = [0..<length (entries m)]) \<and>
   (TrimSpace (queryText (query m)) \<noteq> [] \<longrightarrow>
      set (filtered (applyFilter L m)) =
        {i. i < length (entries m) \<and>
            matchDistance L (TrimSpace (queryText (query m))) (entries m) i \<noteq> None} \<and>
      distinct (filtered (applyFilter L m)) \<and>
      sorted (map (rankKey L (TrimSpace (queryText (query m))) (entries m))
                (filtered (applyFilter L m))) \<and>
      (distinct (map (\<lambda>r. ID (row_session r)) (entries m)) \<longrightarrow>
         (\<forall>ys. set ys = set (filtered (applyFilter L m)) \<and> distinct ys \<and>
               sorted (map (rankKey L (TrimSpace (queryText (query m))) (entries m)) ys) \<longrightarrow>
               ys = filtered (applyFilter L m))))"
proof (intro conjI impI)
  assume "TrimSpace (queryText (query m)) = []"
  then show "filtered (applyFilter L m) = [0..<length (entries m)]"
    by (simp add: applyFilter_filtered)
next
  define q where "q = TrimSpace (queryText (query m))"
  define rows where "rows = entries m"
  define rs where "rs = RankFindFold L q (map searchKey rows)"
  define result where "result = filtered (applyFilter L m)"
  assume ne: "TrimSpace (queryText (query m)) \<noteq> []"
  then have res: "result = map OriginalIndex (sort_key (sortKey rows) rs)"
    by (simp add: result_def applyFilter_filtered q_def rows_def rs_def)
  have ms: "mset result = mset (map OriginalIndex rs)"
    by (simp add: res)
  have idx: "map OriginalIndex rs = filter (\<lambda>j. matchDistance L q rows j \<noteq> None) [0..<length rows]"
    unfolding rs_def by (rule RankFindFold_indices)
  have set_res: "set result = {i. i < length rows \<and> matchDistance L q rows i \<noteq> None}"
    using mset_eq_setD[OF ms] by (auto simp: idx)
  have "distinct (map OriginalIndex rs)"
    by (simp add: idx)
  then have dist: "distinct result"
    using mset_eq_imp_distinct_iff[OF ms] by simp
  have "map (rankKey L q rows) result = map (sortKey rows) (sort_key (sortKey rows) rs)"
    unfolding res map_map
    by (rule map_cong[OF refl]) (simp add: RankFindFold_key[of _ L q rows] rs_def[symmetric])
  then have srt: "sorted (map (rankKey L q rows) result)"
    by (simp add: sorted_sort_key)
  show "set (filtered (applyFilter L m)) =
        {i. i < length (entries m) \<and>
            matchDistance L (TrimSpace (queryText (query m))) (entries m) i \<noteq> None}"
    using set_res by (simp add: result_def rows_def q_def)
  show "distinct (filtered (applyFilter L m))"
    using dist by (simp add: result_def)
  show "sorted (map (rankKey L (TrimSpace (queryText (query m))) (entries m))
                (filtered (applyFilter L m)))"
    using srt by (simp add: result_def rows_def q_def)
  assume ids: "distinct (map (\<lambda>r. ID (row_session r)) (entries m))"
  have inj: "inj_on (rankKey L q rows) {i. i < length rows}"
    using rankKey_inj[OF ids[folded rows_def]] .
  have sub: "set result \<subseteq> {i. i < length rows}"
    using set_res by auto
  have uniq: "ys = result"
    if "set ys = set result" and "distinct ys" and "sorted (map (rankKey L q rows) ys)" for ys
  proof -
    have "set (map (rankKey L q rows) ys) = set (map (rankKey L q rows) result)"
      using that(1) by simp
    moreover have "distinct (map (rankKey L q rows) ys)"
      using that(1,2) sub inj by (auto simp: distinct_map intro: inj_on_subset)
    moreover have "distinct (map (rankKey L q rows) result)"
      using dist sub inj by (auto simp: distinct_map intro: inj_on_subset)
    ultimately have "map (rankKey L q rows) ys = map (rankKey L q rows) result"
      using that(3) srt by (intro sorted_distinct_set_unique)
    moreover have "inj_on (rankKey L q rows) (set ys \<union> set result)"
      using that(1) sub inj by (auto intro: inj_on_subset)
    ultimately show ?thesis
      by (rule map_inj_on)
  qed
  show "\<forall>ys. set ys = set (filtered (applyFilter L m)) \<and> distinct ys \<and>
             sorted (map (rankKey L (TrimSpace (queryText (query m))) (entries m)) ys) \<longrightarrow>
             ys = filtered (applyFilter L m)"
    using uniq by (simp add: result_def rows_def q_def)
qed

theorem rank_order_is_determined_witness:
  "TrimSpace (queryText (query queriedRows)) = ''s'' \<and>
   filtered (applyFilter exampleLib queriedRows) = [1, 0] \<and>
   sorted (map (rankKey exampleLib ''s'' (entries queriedRows)) [1, 0]) \<and>
   filtered (applyFilter exampleLib twoRows) = [0, 1]"
proof -
  have q: "TrimSpace (queryText (query queriedRows)) = ''s''"
    by code_simp
  have f: "filtered (applyFilter exampleLib queriedRows) = [1, 0]"
    by code_simp
  have g: "filtered (applyFilter exampleLib twoRows) = [0, 1]"
    by code_simp
  have "sorted (map (rankKey exampleLib (TrimSpace (queryText (query queriedRows)))
      (entries queriedRows)) (filtered (applyFilter exampleLib queriedRows)))"
    using rank_order_is_determined[of queriedRows exampleLib] q by simp
  then show ?thesis
    unfolding q f using q f g by blast
qed

theorem selection_stays_in_bounds_witness:
  "inBounds twoRows \<and> indicesValid twoRows \<and>
   moveSelectionBy 5 twoRows = secondSelected \<and> inBounds secondSelected"
proof -
  have h1: "inBounds twoRows"
    by code_simp
  have h2: "indicesValid twoRows"
    by code_simp
  have e: "moveSelectionBy 5 twoRows = secondSelected"
    by code_simp
  have "inBounds (moveSelectionBy 5 twoRows)"
    using selection_stays_in_bounds[OF h1 h2, of exampleLib 0 twoSessionTree 5 "[]" "[]" "[]" "[]"]
    by blast
  then show ?thesis
    using h1 h2 e by simp
qed

theorem delete_reports_and_removes_witness:
  "inBounds secondSelected \<and> indicesValid secondSelected \<and>
   handleEvent exampleLib KeyDelete (twoSessionTree, secondSelected) =
     Some (\<lparr>files = {''/r/keep/b.jsonl''}, dirs = {''/'', ''/r'', ''/r/keep''}, denied = {}\<rparr>,
           \<lparr>entries = [\<lparr>row_session = otherSession,
                         searchKey = ''s2 /v assistant_message: hi there 7 30''\<rparr>],
            filtered = [0], selected = 0, pageSize = 10, query = [],
            status = ''Session S1 deleted'', sessionsRoot = ''/r'', resumeID = [],
            stopped = False\<rparr>)"
proof -
  have h1: "inBounds secondSelected"
    by code_simp
  have h2: "indicesValid secondSelected"
    by code_simp
  note t = delete_reports_and_removes[OF h1 h2, of exampleLib twoSessionTree, unfolded Let_def]
  have ne: "filtered secondSelected \<noteq> []"
    by code_simp
  have ok: "snd (DeleteFiles
      (row_session (entries secondSelected ! (filtered secondSelected ! nat (selected secondSelected))))
      (sessionsRoot secondSelected) twoSessionTree) = []"
    by code_simp
  have e: "Some (fst (DeleteFiles
      (row_session (entries secondSelected ! (filtered secondSelected ! nat (selected secondSelected))))
      (sessionsRoot secondSelected) twoSessionTree),
      applyFilter exampleLib
        (secondSelected\<lparr>entries :=
            take (filtered secondSelected ! nat (selected secondSelected)) (entries secondSelected) @
            drop (Suc (filtered secondSelected ! nat (selected secondSelected))) (entries secondSelected),
          status := ''Session '' @
            ID (row_session (entries secondSelected !
                  (filtered secondSelected ! nat (selected secondSelected)))) @ '' deleted''\<rparr>)) =
     Some (\<lparr>files = {''/r/keep/b.jsonl''}, dirs = {''/'', ''/r'', ''/r/keep''}, denied = {}\<rparr>,
           \<lparr>entries = [\<lparr>row_session = otherSession,
                         searchKey = ''s2 /v assistant_message: hi there 7 30''\<rparr>],
            filtered = [0], selected = 0, pageSize = 10, query = [],
            status = ''Session S1 deleted'', sessionsRoot = ''/r'', resumeID = [],
            stopped = False\<rparr>)"
    by code_simp
  from t ne ok have "handleEvent exampleLib KeyDelete (twoSessionTree, secondSelected) =
      Some (fst (DeleteFiles
      (row_session (entries secondSelected ! (filtered secondSelected ! nat (selected secondSelected))))
      (sessionsRoot secondSelected) twoSessionTree),
      applyFilter exampleLib
        (secondSelected\<lparr>entries :=
            take (filtered secondSelected ! nat (selected secondSelected)) (entries secondSelected) @
            drop (Suc (filtered secondSelected ! nat (selected secondSelected))) (entries secondSelected),
          status := ''Session '' @
            ID (row_session (entries secondSelected !
                  (filtered secondSelected ! nat (selected secondSelected)))) @ '' deleted''\<rparr>))"
    by blast
  then show ?thesis
    using h1 h2 e by simp
qed

end
